theory Spec2Isabelle
  imports Complex_Main "HOL-Library.Word" "HOL-Library.Monad_Syntax"
begin

section \<open>Numeric and memory model\<close>

text \<open>
  The program is \<^verbatim>\<open>src/main.c\<close>, an FM demodulator working on buffers of raw I/Q
  bytes.

  \<^item> A C \<^verbatim>\<open>float\<close> or \<^verbatim>\<open>double\<close> is read as the real number it denotes and the
    arithmetic on it as exact arithmetic on \<^typ>\<open>real\<close>: rounding, NaN and infinities
    are outside the model. Most theorems below follow the data flow (which cell is read,
    which expression is stored where) and equate a stored value with the expression the
    code evaluates; where a statement rests on exact arithmetic, its text says so. Where
    a claim is about the value that is computed (the range and the wrapping of a frequency
    sample, a fixed point of the de-emphasis filter, the quantized sample), the function
    is modelled a second time with its roundings, in the sections on binary32.
  \<^item> \<^verbatim>\<open>uint8_t\<close> is \<^typ>\<open>8 word\<close>, \<^verbatim>\<open>int16_t\<close> is \<^typ>\<open>16 word\<close> read with \<^const>\<open>sint\<close>.
  \<^item> An array is a list holding the cells of the object the pointer points into. A read
    or write outside it has no defined behaviour in C; the model returns \<^const>\<open>None\<close>
    there, so \<^const>\<open>None\<close> never stands for an error the program reports.
  \<^item> The \<^verbatim>\<open>int len\<close> parameters are natural numbers: the callers pass sizes of
    arrays. For a natural number \<open>len - 1\<close> is \<open>0\<close> when \<open>len = 0\<close>, and
    \<open>i < len - 1\<close> is then false as \<^verbatim>\<open>i < -1\<close> is in C for \<open>i \<ge> 0\<close>.
\<close>

definition SAMPLE_RATE :: nat where
  "SAMPLE_RATE = 960000"

definition AUDIO_RATE :: nat where
  "AUDIO_RATE = 48000"

definition DECIMATION_FACTOR :: nat where
  "DECIMATION_FACTOR = SAMPLE_RATE div AUDIO_RATE"

definition BUFFER_SIZE :: nat where
  "BUFFER_SIZE = 16 * 16384"

definition TAU :: real where
  "TAU = 0.000050"

text \<open>\<^verbatim>\<open>a[i]\<close> as a value and \<^verbatim>\<open>a[i] = v\<close>, both inside the array only.\<close>

definition load :: "'a list \<Rightarrow> nat \<Rightarrow> 'a option" where
  "load a i = (if i < length a then Some (a ! i) else None)"

definition store :: "'a list \<Rightarrow> nat \<Rightarrow> 'a \<Rightarrow> 'a list option" where
  "store a i v = (if i < length a then Some (a[i := v]) else None)"

section \<open>Library functions and constants of \<^verbatim>\<open>math.h\<close>\<close>

text \<open>
  \<^verbatim>\<open>M_PI\<close> and \<^verbatim>\<open>atan2\<close> come from the C library. On the reals \<^verbatim>\<open>atan2(y, x)\<close> is
  the angle of the point \<open>(x, y)\<close>, with \<^verbatim>\<open>atan2(0, 0) = 0\<close> and \<^verbatim>\<open>atan2(0, x) = pi\<close>
  for \<open>x < 0\<close> (the value C gives for a positive zero).
\<close>

definition M_PI :: real where
  "M_PI = pi"

definition atan2 :: "real \<Rightarrow> real \<Rightarrow> real" where
  "atan2 y x =
     (if 0 < x then arctan (y / x)
      else if x < 0 then (if 0 \<le> y then arctan (y / x) + pi else arctan (y / x) - pi)
      else if 0 < y then pi / 2
      else if y < 0 then - (pi / 2)
      else 0)"

section \<open>Frequency discriminator\<close>

text \<open>
  \<^verbatim>\<open>
  float convert_value(uint8_t value) {
      return (float)value - 127.5f;
  }
  \<close>
\<close>

definition convert_value :: "8 word \<Rightarrow> real" where
  "convert_value v = real (unat v) - 127.5"

text \<open>
  \<^verbatim>\<open>
  float get_instant_freq(float i1, float q1, float i2, float q2) {
      float phase1 = atan2(q1, i1);
      float phase2 = atan2(q2, i2);
      float instant_freq = phase2 - phase1;
      if (instant_freq > M_PI) instant_freq -= 2 * M_PI;
      else if (instant_freq < -M_PI) instant_freq += 2 * M_PI;
      return instant_freq;
  }
  \<close>
\<close>

definition get_instant_freq :: "real \<Rightarrow> real \<Rightarrow> real \<Rightarrow> real \<Rightarrow> real" where
  "get_instant_freq i1 q1 i2 q2 =
     (let phase1 = atan2 q1 i1;
          phase2 = atan2 q2 i2;
          instant_freq = phase2 - phase1
      in if instant_freq > M_PI then instant_freq - 2 * M_PI
         else if instant_freq < - M_PI then instant_freq + 2 * M_PI
         else instant_freq)"

text \<open>
  \<^verbatim>\<open>
  void get_freq_values(float *freq_samples, float *i_samples, float *q_samples, int len) {
      for (int i = 0; i < len - 1; i++) {
          freq_samples[i] = get_instant_freq(
                  i_samples[i], q_samples[i], i_samples[i+1], q_samples[i+1]
          );
      }
  }
  \<close>
\<close>

function get_freq_loop :: "real list \<Rightarrow> real list \<Rightarrow> real list \<Rightarrow> nat \<Rightarrow> nat \<Rightarrow> real list option" where
  "get_freq_loop freq_samples i_samples q_samples len i =
     (if i < len - 1 then
        do {
          i1 \<leftarrow> load i_samples i;
          q1 \<leftarrow> load q_samples i;
          i2 \<leftarrow> load i_samples (i + 1);
          q2 \<leftarrow> load q_samples (i + 1);
          freq_samples' \<leftarrow> store freq_samples i (get_instant_freq i1 q1 i2 q2);
          get_freq_loop freq_samples' i_samples q_samples len (i + 1)
        }
      else Some freq_samples)"
  by pat_completeness auto
termination
  by (relation "measure (\<lambda>(f, is, qs, len, i). len - 1 - i)") auto

definition get_freq_values :: "real list \<Rightarrow> real list \<Rightarrow> real list \<Rightarrow> nat \<Rightarrow> real list option" where
  "get_freq_values freq_samples i_samples q_samples len =
     get_freq_loop freq_samples i_samples q_samples len 0"

section \<open>De-emphasis filter\<close>

text \<open>
  \<^verbatim>\<open>
  #define TAU 0.000050
  void deemphasize_filter(float *freq_samples, float last_sample, int len) {
      float alpha = 1.0 - exp(-(1.0/(TAU * SAMPLE_RATE)));
      freq_samples[0] = alpha * freq_samples[0] + (1.0f - alpha) * last_sample;
      for (int i = 1; i < len; i++) {
          freq_samples[i] = alpha * freq_samples[i] + (1.0f - alpha) * freq_samples[i - 1];
      }
  }
  \<close>
\<close>

definition alpha :: real where
  "alpha = 1.0 - exp (- (1.0 / (TAU * real SAMPLE_RATE)))"

function deemphasize_loop :: "real list \<Rightarrow> nat \<Rightarrow> nat \<Rightarrow> real list option" where
  "deemphasize_loop freq_samples len i =
     (if i < len then
        do {
          x \<leftarrow> load freq_samples i;
          p \<leftarrow> load freq_samples (i - 1);
          freq_samples' \<leftarrow> store freq_samples i (alpha * x + (1.0 - alpha) * p);
          deemphasize_loop freq_samples' len (i + 1)
        }
      else Some freq_samples)"
  by pat_completeness auto
termination
  by (relation "measure (\<lambda>(f, len, i). len - i)") auto

definition deemphasize_filter :: "real list \<Rightarrow> real \<Rightarrow> nat \<Rightarrow> real list option" where
  "deemphasize_filter freq_samples last_sample len =
     do {
       x \<leftarrow> load freq_samples 0;
       freq_samples' \<leftarrow> store freq_samples 0 (alpha * x + (1.0 - alpha) * last_sample);
       deemphasize_loop freq_samples' len 1
     }"

section \<open>DC-block filter\<close>

text \<open>
  \<^verbatim>\<open>
  void dc_block_filter(float *samples_buffer, int len) {
      const float R = 0.99;
      float last = samples_buffer[0];
      float tmp_res = 0.0f;
      for (int i = 1; i < len; i++) {
          tmp_res = samples_buffer[i] - last + R * samples_buffer[i-1];
          last = samples_buffer[i];
          samples_buffer[i] = tmp_res;
      }
  }
  \<close>
  The loop state is the buffer, \<^verbatim>\<open>last\<close> (written \<open>last'\<close>, as \<open>last\<close> is a function on
  lists) and \<^verbatim>\<open>i\<close>; \<^verbatim>\<open>tmp_res\<close> is written before it is read in each iteration.
\<close>

definition R :: real where
  "R = 0.99"

function dc_block_loop :: "real list \<Rightarrow> nat \<Rightarrow> real \<Rightarrow> nat \<Rightarrow> real list option" where
  "dc_block_loop samples_buffer len last' i =
     (if i < len then
        do {
          x \<leftarrow> load samples_buffer i;
          p \<leftarrow> load samples_buffer (i - 1);
          samples_buffer' \<leftarrow> store samples_buffer i (x - last' + R * p);
          dc_block_loop samples_buffer' len x (i + 1)
        }
      else Some samples_buffer)"
  by pat_completeness auto
termination
  by (relation "measure (\<lambda>(b, len, last, i). len - i)") auto

definition dc_block_filter :: "real list \<Rightarrow> nat \<Rightarrow> real list option" where
  "dc_block_filter samples_buffer len =
     do {
       last' \<leftarrow> load samples_buffer 0;
       dc_block_loop samples_buffer len last' 1
     }"

section \<open>Demodulation of one buffer\<close>

text \<open>
  \<^verbatim>\<open>
  float demodulate(float *freq_samples, float last_sample, uint8_t *buffer, int len) {
      float *i_samples = malloc(sizeof(float) * (len / 2));
      float *q_samples = malloc(sizeof(float) * (len / 2));
      for (int i = 0, j = 0; j < len; i++, j += 2) {
          i_samples[i] = convert_value(buffer[j]);
          q_samples[i] = convert_value(buffer[j+1]);
      }
      get_freq_values(freq_samples, i_samples, q_samples, len/2);
      deemphasize_filter(freq_samples, last_sample, len/2);
      dc_block_filter(freq_samples, len/2);
      free(i_samples);
      free(q_samples);
      return freq_samples[len/2 - 1];
  }
  \<close>
  The two allocated arrays have \<open>len div 2\<close> cells of indeterminate content; the model
  starts them at \<open>0\<close>, and \<open>demodulate_loop_even\<close> below shows that the loop overwrites
  every cell, whatever it held. The function returns the array it has updated in place
  together with its return value. \<^verbatim>\<open>freq_samples[len/2 - 1]\<close> is index \<open>-1\<close> when
  \<open>len div 2 = 0\<close>, outside the array.
\<close>

function demodulate_loop ::
  "8 word list \<Rightarrow> nat \<Rightarrow> real list \<Rightarrow> real list \<Rightarrow> nat \<Rightarrow> nat \<Rightarrow> (real list \<times> real list) option" where
  "demodulate_loop buffer len i_samples q_samples i j =
     (if j < len then
        do {
          b0 \<leftarrow> load buffer j;
          i_samples' \<leftarrow> store i_samples i (convert_value b0);
          b1 \<leftarrow> load buffer (j + 1);
          q_samples' \<leftarrow> store q_samples i (convert_value b1);
          demodulate_loop buffer len i_samples' q_samples' (i + 1) (j + 2)
        }
      else Some (i_samples, q_samples))"
  by pat_completeness auto
termination
  by (relation "measure (\<lambda>(b, len, is, qs, i, j). len - j)") auto

definition demodulate :: "real list \<Rightarrow> real \<Rightarrow> 8 word list \<Rightarrow> nat \<Rightarrow> (real list \<times> real) option" where
  "demodulate freq_samples last_sample buffer len =
     do {
       (i_samples, q_samples) \<leftarrow>
          demodulate_loop buffer len (replicate (len div 2) 0) (replicate (len div 2) 0) 0 0;
       freq_samples1 \<leftarrow> get_freq_values freq_samples i_samples q_samples (len div 2);
       freq_samples2 \<leftarrow> deemphasize_filter freq_samples1 last_sample (len div 2);
       freq_samples3 \<leftarrow> dc_block_filter freq_samples2 (len div 2);
       r \<leftarrow> (if len div 2 = 0 then None else load freq_samples3 (len div 2 - 1));
       Some (freq_samples3, r)
     }"

text \<open>
  The content of \<^verbatim>\<open>freq_samples\<close> between the de-emphasis and the DC-block call of
  \<open>demodulate\<close> (after line 146 of the source): the same steps, stopped there.
\<close>

definition deemphasized :: "real list \<Rightarrow> real \<Rightarrow> 8 word list \<Rightarrow> nat \<Rightarrow> real list option" where
  "deemphasized freq_samples last_sample buffer len =
     do {
       (i_samples, q_samples) \<leftarrow>
          demodulate_loop buffer len (replicate (len div 2) 0) (replicate (len div 2) 0) 0 0;
       freq_samples1 \<leftarrow> get_freq_values freq_samples i_samples q_samples (len div 2);
       deemphasize_filter freq_samples1 last_sample (len div 2)
     }"

section \<open>Decimator\<close>

text \<open>
  \<^verbatim>\<open>
  int decimate(float *decimated_samples, float *freq_samples, int len) {
      for (int i = 0, j = 0; i < (len / DECIMATION_FACTOR); i++, j+=DECIMATION_FACTOR) {
          decimated_samples[i] = freq_samples[j];
      }
      return len / DECIMATION_FACTOR;
  }
  \<close>
\<close>

function decimate_loop :: "real list \<Rightarrow> real list \<Rightarrow> nat \<Rightarrow> nat \<Rightarrow> nat \<Rightarrow> real list option" where
  "decimate_loop decimated_samples freq_samples len i j =
     (if i < len div DECIMATION_FACTOR then
        do {
          x \<leftarrow> load freq_samples j;
          decimated_samples' \<leftarrow> store decimated_samples i x;
          decimate_loop decimated_samples' freq_samples len (i + 1) (j + DECIMATION_FACTOR)
        }
      else Some decimated_samples)"
  by pat_completeness auto
termination
  by (relation "measure (\<lambda>(d, f, len, i, j). len div DECIMATION_FACTOR - i)") auto

definition decimate :: "real list \<Rightarrow> real list \<Rightarrow> nat \<Rightarrow> (real list \<times> nat) option" where
  "decimate decimated_samples freq_samples len =
     do {
       decimated_samples' \<leftarrow> decimate_loop decimated_samples freq_samples len 0 0;
       Some (decimated_samples', len div DECIMATION_FACTOR)
     }"

section \<open>Quantizer\<close>

text \<open>
  \<^verbatim>\<open>
  void convert_samples(int16_t *buffer, float *samples, int len) {
      const float GAIN = 32767.0f;
      for (int i = 0; i < len; i++) {
          float res = samples[i] * GAIN;
          if (res > 32767.0f) res = 32767.0f;
          else if (res < -32768.0f) res = -32768.0f;
          buffer[i] = (int16_t)res;
      }
  }
  \<close>
  The conversion \<^verbatim>\<open>(int16_t)res\<close> discards the fractional part; C leaves it undefined
  when the integral part is not a value of \<^verbatim>\<open>int16_t\<close>. \<open>clamp\<close> is the \<^verbatim>\<open>if\<close>/\<^verbatim>\<open>else if\<close>
  of the loop body.
\<close>

definition GAIN :: real where
  "GAIN = 32767.0"

definition truncate :: "real \<Rightarrow> int" where
  "truncate x = (if 0 \<le> x then \<lfloor>x\<rfloor> else \<lceil>x\<rceil>)"

definition int16_of_float :: "real \<Rightarrow> 16 word option" where
  "int16_of_float x =
     (if - 32768 \<le> truncate x \<and> truncate x \<le> 32767 then Some (word_of_int (truncate x)) else None)"

definition clamp :: "real \<Rightarrow> real" where
  "clamp res = (if res > 32767.0 then 32767.0 else if res < - 32768.0 then - 32768.0 else res)"

function convert_loop :: "16 word list \<Rightarrow> real list \<Rightarrow> nat \<Rightarrow> nat \<Rightarrow> 16 word list option" where
  "convert_loop buffer samples len i =
     (if i < len then
        do {
          x \<leftarrow> load samples i;
          w \<leftarrow> int16_of_float (clamp (x * GAIN));
          buffer' \<leftarrow> store buffer i w;
          convert_loop buffer' samples len (i + 1)
        }
      else Some buffer)"
  by pat_completeness auto
termination
  by (relation "measure (\<lambda>(b, s, len, i). len - i)") auto

definition convert_samples :: "16 word list \<Rightarrow> real list \<Rightarrow> nat \<Rightarrow> 16 word list option" where
  "convert_samples buffer samples len = convert_loop buffer samples len 0"

section \<open>One iteration of the driver\<close>

text \<open>
  \<^verbatim>\<open>
  uint8_t buffer[BUFFER_SIZE];
  float freq_samples[BUFFER_SIZE / 2];
  float freq_samples_decimated[BUFFER_SIZE / (2 * DECIMATION_FACTOR)];
  ...
  while (bytes_count < total_bytes) {
      int result = rtlsdr_read_sync(sdr, buffer, BUFFER_SIZE, &read_bytes);
      if (result < 0) {
          fprintf(stderr, "An error occurred while reading IQ samples.\n");
          exit(1);
      }
      last_sample = demodulate(freq_samples, last_sample, buffer, BUFFER_SIZE);
      int samples_to_write = decimate(freq_samples_decimated, freq_samples, BUFFER_SIZE / 2);
      int16_t *int_samples = malloc(sizeof(int16_t) * samples_to_write);
      convert_samples(int_samples, freq_samples_decimated, samples_to_write);
      fwrite(int_samples, sizeof(int16_t), samples_to_write, audio_file);
      total_audio_bytes += samples_to_write * sizeof(int16_t);
      bytes_count += read_bytes;
      free(int_samples);
  }
  \<close>
  The body of the loop, from the value \<open>result\<close> and the content of \<open>buffer\<close> that the
  read has left: it ends the program with \<^verbatim>\<open>exit(1)\<close> (\<open>Inl Read_Failed\<close>) or yields the
  updated arrays, the new \<open>last_sample\<close> and the block \<open>int_samples\<close> handed to
  \<^verbatim>\<open>fwrite\<close>. \<^verbatim>\<open>read_bytes\<close> only feeds the byte counter of the loop condition.
\<close>

datatype error = Read_Failed

definition main_iteration ::
  "real list \<Rightarrow> real list \<Rightarrow> real \<Rightarrow> int \<Rightarrow> 8 word list \<Rightarrow>
   (error + real list \<times> real list \<times> real \<times> 16 word list) option" where
  "main_iteration freq_samples freq_samples_decimated last_sample result buffer =
     (if result < 0 then Some (Inl Read_Failed)
      else
        do {
          (freq_samples', last_sample') \<leftarrow>
             demodulate freq_samples last_sample buffer BUFFER_SIZE;
          (freq_samples_decimated', samples_to_write) \<leftarrow>
             decimate freq_samples_decimated freq_samples' (BUFFER_SIZE div 2);
          int_samples \<leftarrow>
             convert_samples (replicate samples_to_write 0) freq_samples_decimated' samples_to_write;
          Some (Inr (freq_samples', freq_samples_decimated', last_sample', int_samples))
        })"

section \<open>The discriminator's arithmetic in binary32\<close>

text \<open>
  Whether a frequency sample can leave \<open>(- pi, pi]\<close> is decided by rounding at one point,
  so for \<open>get_instant_freq\<close> the roundings are modelled as well. A finite binary32 number
  is \<open>m * 2^e\<close> with \<open>\<bar>m\<bar> < 2^24\<close> and \<open>- 149 \<le> e \<le> 104\<close>, a finite binary64 number
  \<open>m * 2^e\<close> with \<open>\<bar>m\<bar> < 2^53\<close> and \<open>- 1074 \<le> e \<le> 971\<close>. A conversion or an operation in
  the default rounding mode returns a number of the format that is nearest to the exact
  value (\<open>nearest32\<close>, \<open>nearest64\<close>; which one on a tie is left open, and the values
  met here are below 8 in magnitude, far from overflow). \<open>M_PI_double\<close> is the value of
  the macro \<^verbatim>\<open>M_PI\<close>, the literal \<^verbatim>\<open>3.14159265358979323846\<close> as a \<^verbatim>\<open>double\<close>.
  \<^verbatim>\<open>
  float phase1 = atan2(q1, i1);            /* a double, converted to float */
  float phase2 = atan2(q2, i2);            /* a double, converted to float */
  float instant_freq = phase2 - phase1;    /* float subtraction */
  if (instant_freq > M_PI) instant_freq -= 2 * M_PI;        /* in double, then to float */
  else if (instant_freq < -M_PI) instant_freq += 2 * M_PI;  /* in double, then to float */
  return instant_freq;
  \<close>
  \<open>get_instant_freq_binary32 a1 a2 r\<close> says that \<open>r\<close> is a value the function can return
  when its two calls of \<^verbatim>\<open>atan2\<close> have returned the doubles \<open>a1\<close> and \<open>a2\<close>. C places the
  results of \<^verbatim>\<open>atan2\<close> in \<open>[- pi, pi]\<close>; \<open>M_PI_double\<close> is the largest \<^verbatim>\<open>double\<close> there.
\<close>

definition M_PI_double :: real where
  "M_PI_double = 884279719003555 / 2 ^ 48"

definition is_binary32 :: "real \<Rightarrow> bool" where
  "is_binary32 x \<longleftrightarrow>
     (\<exists>m e :: int. \<bar>m\<bar> < 2 ^ 24 \<and> - 149 \<le> e \<and> e \<le> 104 \<and> x = of_int m * 2 powi e)"

definition is_binary64 :: "real \<Rightarrow> bool" where
  "is_binary64 x \<longleftrightarrow>
     (\<exists>m e :: int. \<bar>m\<bar> < 2 ^ 53 \<and> - 1074 \<le> e \<and> e \<le> 971 \<and> x = of_int m * 2 powi e)"

definition nearest32 :: "real \<Rightarrow> real \<Rightarrow> bool" where
  "nearest32 x r \<longleftrightarrow> is_binary32 r \<and> (\<forall>g. is_binary32 g \<longrightarrow> \<bar>r - x\<bar> \<le> \<bar>g - x\<bar>)"

definition nearest64 :: "real \<Rightarrow> real \<Rightarrow> bool" where
  "nearest64 x r \<longleftrightarrow> is_binary64 r \<and> (\<forall>g. is_binary64 g \<longrightarrow> \<bar>r - x\<bar> \<le> \<bar>g - x\<bar>)"

definition get_instant_freq_binary32 :: "real \<Rightarrow> real \<Rightarrow> real \<Rightarrow> bool" where
  "get_instant_freq_binary32 a1 a2 r \<longleftrightarrow>
     (\<exists>phase1 phase2 instant_freq.
        nearest32 a1 phase1 \<and> nearest32 a2 phase2 \<and>
        nearest32 (phase2 - phase1) instant_freq \<and>
        (if instant_freq > M_PI_double then
           (\<exists>y. nearest64 (instant_freq - 2 * M_PI_double) y \<and> nearest32 y r)
         else if instant_freq < - M_PI_double then
           (\<exists>y. nearest64 (instant_freq + 2 * M_PI_double) y \<and> nearest32 y r)
         else r = instant_freq))"

section \<open>The quantizer's arithmetic in binary32\<close>

text \<open>
  What \<^verbatim>\<open>convert_samples\<close> stores depends on the value of a \<^verbatim>\<open>float\<close> product and on
  what the two comparisons do with a value that is no number, so this function is
  modelled a second time with its \<^verbatim>\<open>float\<close> arithmetic. A \<^verbatim>\<open>float\<close> is a finite binary32
  number, an infinity or NaN. An operation rounds its exact result to a nearest binary32
  number (\<open>nearest32\<close>) and overflows to an infinity from \<open>2^128 - 2^103\<close> on, the
  midpoint between the largest finite number and \<open>2^128\<close>. A comparison with NaN is false.
  The conversion \<^verbatim>\<open>(int16_t)res\<close> is defined for a finite \<open>res\<close> whose integral part is a
  value of \<^verbatim>\<open>int16_t\<close> and for nothing else. \<open>float_times x c\<close> is the product of \<open>x\<close> with the
  finite number \<open>c\<close>, \<open>float_greater\<close> and \<open>float_less\<close> are \<^verbatim>\<open>>\<close> and \<^verbatim>\<open><\<close> against a finite
  number.
\<close>

datatype float = Finite real | PInf | MInf | NaN

definition round32 :: "real \<Rightarrow> float \<Rightarrow> bool" where
  "round32 y f \<longleftrightarrow>
     (if 2 ^ 128 - 2 ^ 103 \<le> y then f = PInf
      else if y \<le> - (2 ^ 128 - 2 ^ 103) then f = MInf
      else (\<exists>r. nearest32 y r \<and> f = Finite r))"

definition float_times :: "float \<Rightarrow> real \<Rightarrow> float \<Rightarrow> bool" where
  "float_times x c f \<longleftrightarrow>
     (case x of
        Finite v \<Rightarrow> round32 (v * c) f
      | PInf \<Rightarrow> f = (if 0 < c then PInf else if c < 0 then MInf else NaN)
      | MInf \<Rightarrow> f = (if 0 < c then MInf else if c < 0 then PInf else NaN)
      | NaN \<Rightarrow> f = NaN)"

definition float_greater :: "float \<Rightarrow> real \<Rightarrow> bool" where
  "float_greater x c = (case x of Finite v \<Rightarrow> v > c | PInf \<Rightarrow> True | MInf \<Rightarrow> False | NaN \<Rightarrow> False)"

definition float_less :: "float \<Rightarrow> real \<Rightarrow> bool" where
  "float_less x c = (case x of Finite v \<Rightarrow> v < c | PInf \<Rightarrow> False | MInf \<Rightarrow> True | NaN \<Rightarrow> False)"

definition clamp_binary32 :: "float \<Rightarrow> float" where
  "clamp_binary32 res =
     (if float_greater res 32767.0 then Finite 32767.0
      else if float_less res (- 32768.0) then Finite (- 32768.0)
      else res)"

definition int16_of_binary32 :: "float \<Rightarrow> 16 word option" where
  "int16_of_binary32 x = (case x of Finite v \<Rightarrow> int16_of_float v | PInf \<Rightarrow> None | MInf \<Rightarrow> None | NaN \<Rightarrow> None)"

text \<open>
  The loop of \<^verbatim>\<open>convert_samples\<close>, as the relation between the arrays before and after it:
  one rule for the exit and one for an iteration. There is no derivation for a run that
  reads or writes outside an array or converts a value for which C defines no result.
\<close>

inductive convert_loop_binary32 ::
  "16 word list \<Rightarrow> float list \<Rightarrow> nat \<Rightarrow> nat \<Rightarrow> 16 word list \<Rightarrow> bool" where
  convert_loop_binary32_exit:
    "\<not> i < len \<Longrightarrow> convert_loop_binary32 buffer samples len i buffer"
| convert_loop_binary32_body:
    "i < len \<Longrightarrow> load samples i = Some x \<Longrightarrow> float_times x GAIN res \<Longrightarrow>
     int16_of_binary32 (clamp_binary32 res) = Some w \<Longrightarrow> store buffer i w = Some buffer' \<Longrightarrow>
     convert_loop_binary32 buffer' samples len (i + 1) out \<Longrightarrow>
     convert_loop_binary32 buffer samples len i out"

definition convert_samples_binary32 ::
  "16 word list \<Rightarrow> float list \<Rightarrow> nat \<Rightarrow> 16 word list \<Rightarrow> bool" where
  "convert_samples_binary32 buffer samples len out \<longleftrightarrow>
     convert_loop_binary32 buffer samples len 0 out"

section \<open>The discriminator's loop in binary32\<close>

text \<open>
  \<^verbatim>\<open>convert_value\<close> is exact in \<^verbatim>\<open>float\<close>: a byte less \<open>127.5\<close> is a multiple of \<open>1/2\<close> below
  \<open>128\<close> in magnitude. \<^verbatim>\<open>atan2\<close> is the library's function on \<^verbatim>\<open>double\<close>: \<open>atan2_double y x a\<close>
  says that \<open>a\<close> is a value it can return for the arguments \<open>y\<close> and \<open>x\<close>, a \<^verbatim>\<open>double\<close> in
  \<open>[- pi, pi]\<close> that differs from the exact angle by at most \<open>2^-30\<close> (a bound far above
  the error of the library's function, and small against the spacing \<open>2^-22\<close> of the
  \<^verbatim>\<open>float\<close> values near \<open>pi\<close>). \<open>get_instant_freq_float\<close> is \<open>get_instant_freq\<close> on
  \<^verbatim>\<open>float\<close> arguments, \<open>get_freq_loop_binary32\<close> the loop of \<^verbatim>\<open>get_freq_values\<close> as a
  relation between the content of \<^verbatim>\<open>freq_samples\<close> before and after it.
\<close>

definition atan2_double :: "real \<Rightarrow> real \<Rightarrow> real \<Rightarrow> bool" where
  "atan2_double y x a \<longleftrightarrow>
     is_binary64 a \<and> \<bar>a\<bar> \<le> M_PI_double \<and> \<bar>a - atan2 y x\<bar> \<le> 1 / 2 ^ 30"

definition get_instant_freq_float :: "real \<Rightarrow> real \<Rightarrow> real \<Rightarrow> real \<Rightarrow> real \<Rightarrow> bool" where
  "get_instant_freq_float i1 q1 i2 q2 r \<longleftrightarrow>
     (\<exists>a1 a2. atan2_double q1 i1 a1 \<and> atan2_double q2 i2 a2 \<and>
        get_instant_freq_binary32 a1 a2 r)"

inductive get_freq_loop_binary32 ::
  "real list \<Rightarrow> real list \<Rightarrow> real list \<Rightarrow> nat \<Rightarrow> nat \<Rightarrow> real list \<Rightarrow> bool" where
  get_freq_loop_binary32_exit:
    "\<not> i < len - 1 \<Longrightarrow> get_freq_loop_binary32 freq_samples i_samples q_samples len i freq_samples"
| get_freq_loop_binary32_body:
    "i < len - 1 \<Longrightarrow>
     load i_samples i = Some i1 \<Longrightarrow> load q_samples i = Some q1 \<Longrightarrow>
     load i_samples (i + 1) = Some i2 \<Longrightarrow> load q_samples (i + 1) = Some q2 \<Longrightarrow>
     get_instant_freq_float i1 q1 i2 q2 r \<Longrightarrow>
     store freq_samples i r = Some freq_samples' \<Longrightarrow>
     get_freq_loop_binary32 freq_samples' i_samples q_samples len (i + 1) out \<Longrightarrow>
     get_freq_loop_binary32 freq_samples i_samples q_samples len i out"

definition get_freq_values_binary32 ::
  "real list \<Rightarrow> real list \<Rightarrow> real list \<Rightarrow> nat \<Rightarrow> real list \<Rightarrow> bool" where
  "get_freq_values_binary32 freq_samples i_samples q_samples len out \<longleftrightarrow>
     get_freq_loop_binary32 freq_samples i_samples q_samples len 0 out"

section \<open>The de-emphasis filter's arithmetic in binary32\<close>

text \<open>
  Whether a constant input is reproduced bit for bit depends on the roundings, so the
  de-emphasis filter is modelled a second time with them, for finite samples below the
  overflow threshold.
  \<^verbatim>\<open>
  float alpha = 1.0 - exp(-(1.0/(TAU * SAMPLE_RATE)));
  \<close>
  is evaluated in \<^verbatim>\<open>double\<close> (the literal, the product, the quotient and the difference
  rounded to a nearest \<^verbatim>\<open>double\<close>; \<^verbatim>\<open>exp\<close> the library's function, taken to return a \<^verbatim>\<open>double\<close>
  with a relative error of at most \<open>2^-50\<close>) and converted to \<^verbatim>\<open>float\<close>.
  \<^verbatim>\<open>
  freq_samples[i] = alpha * freq_samples[i] + (1.0f - alpha) * freq_samples[i - 1];
  \<close>
  has \<^verbatim>\<open>float\<close> operands only: the two products, \<^verbatim>\<open>1.0f - alpha\<close> and the sum are each rounded
  to a nearest \<^verbatim>\<open>float\<close> (no wider intermediate format, no fused multiply-add).
  \<open>deemphasize_step_binary32 a x p r\<close> says that \<open>r\<close> is a value of this expression for
  \<open>alpha = a\<close>, \<open>freq_samples[i] = x\<close> and \<open>freq_samples[i - 1] = p\<close>.
\<close>

definition exp_double :: "real \<Rightarrow> real \<Rightarrow> bool" where
  "exp_double x e \<longleftrightarrow> is_binary64 e \<and> \<bar>e - exp x\<bar> \<le> exp x / 2 ^ 50"

definition alpha_binary32 :: "real \<Rightarrow> bool" where
  "alpha_binary32 a \<longleftrightarrow>
     (\<exists>tau t q e d.
        nearest64 TAU tau \<and> nearest64 (tau * real SAMPLE_RATE) t \<and> nearest64 (1.0 / t) q \<and>
        exp_double (- q) e \<and> nearest64 (1.0 - e) d \<and> nearest32 d a)"

definition deemphasize_step_binary32 :: "real \<Rightarrow> real \<Rightarrow> real \<Rightarrow> real \<Rightarrow> bool" where
  "deemphasize_step_binary32 a x p r \<longleftrightarrow>
     (\<exists>t1 b t2.
        nearest32 (a * x) t1 \<and> nearest32 (1.0 - a) b \<and> nearest32 (b * p) t2 \<and>
        nearest32 (t1 + t2) r)"

inductive deemphasize_loop_binary32 ::
  "real \<Rightarrow> real list \<Rightarrow> nat \<Rightarrow> nat \<Rightarrow> real list \<Rightarrow> bool" where
  deemphasize_loop_binary32_exit:
    "\<not> i < len \<Longrightarrow> deemphasize_loop_binary32 a freq_samples len i freq_samples"
| deemphasize_loop_binary32_body:
    "i < len \<Longrightarrow>
     load freq_samples i = Some x \<Longrightarrow> load freq_samples (i - 1) = Some p \<Longrightarrow>
     deemphasize_step_binary32 a x p r \<Longrightarrow>
     store freq_samples i r = Some freq_samples' \<Longrightarrow>
     deemphasize_loop_binary32 a freq_samples' len (i + 1) out \<Longrightarrow>
     deemphasize_loop_binary32 a freq_samples len i out"

definition deemphasize_filter_binary32 ::
  "real list \<Rightarrow> real \<Rightarrow> nat \<Rightarrow> real list \<Rightarrow> bool" where
  "deemphasize_filter_binary32 freq_samples last_sample len out \<longleftrightarrow>
     (\<exists>a x r freq_samples'.
        alpha_binary32 a \<and> load freq_samples 0 = Some x \<and>
        deemphasize_step_binary32 a x last_sample r \<and>
        store freq_samples 0 r = Some freq_samples' \<and>
        deemphasize_loop_binary32 a freq_samples' len 1 out)"

section \<open>Properties of the decimator\<close>

text \<open>The loops are unfolded one iteration at a time, where a proof asks for it.\<close>

declare decimate_loop.simps [simp del]
declare get_freq_loop.simps [simp del]
declare deemphasize_loop.simps [simp del]
declare dc_block_loop.simps [simp del]
declare demodulate_loop.simps [simp del]
declare convert_loop.simps [simp del]

lemma DECIMATION_FACTOR_eq: "DECIMATION_FACTOR = 20"
  by (simp add: DECIMATION_FACTOR_def SAMPLE_RATE_def AUDIO_RATE_def)

lemma decimate_loop_closed:
  assumes "i \<le> len div DECIMATION_FACTOR" "len div DECIMATION_FACTOR \<le> length d" "len \<le> length f"
  shows "decimate_loop d f len i (i * DECIMATION_FACTOR) =
         Some (take i d @ map (\<lambda>k. f ! (k * DECIMATION_FACTOR)) [i..<len div DECIMATION_FACTOR]
               @ drop (len div DECIMATION_FACTOR) d)"
  using assms
proof (induction "len div DECIMATION_FACTOR - i" arbitrary: i d)
  case 0
  then have "i = len div DECIMATION_FACTOR" by simp
  then show ?case by (subst decimate_loop.simps) simp
next
  case (Suc m)
  let ?n = "len div DECIMATION_FACTOR"
  from Suc.hyps(2) have lt: "i < ?n" by simp
  have "i * DECIMATION_FACTOR < ?n * DECIMATION_FACTOR"
    using lt by (simp add: DECIMATION_FACTOR_eq)
  also have "\<dots> \<le> len" by simp
  finally have jf: "i * DECIMATION_FACTOR < length f" using Suc.prems(3) by simp
  have id: "i < length d" using lt Suc.prems(2) by simp
  have step: "decimate_loop d f len i (i * DECIMATION_FACTOR) =
        decimate_loop (d[i := f ! (i * DECIMATION_FACTOR)]) f len (Suc i) (Suc i * DECIMATION_FACTOR)"
    using lt jf id
    by (subst decimate_loop.simps) (simp add: load_def store_def add.commute)
  have ih: "decimate_loop (d[i := f ! (i * DECIMATION_FACTOR)]) f len (Suc i) (Suc i * DECIMATION_FACTOR) =
      Some (take (Suc i) (d[i := f ! (i * DECIMATION_FACTOR)]) @
            map (\<lambda>k. f ! (k * DECIMATION_FACTOR)) [Suc i..<?n] @ drop ?n (d[i := f ! (i * DECIMATION_FACTOR)]))"
    using Suc.hyps(2) lt Suc.prems by (intro Suc.hyps(1)) simp_all
  have t: "take (Suc i) (d[i := f ! (i * DECIMATION_FACTOR)]) = take i d @ [f ! (i * DECIMATION_FACTOR)]"
    using id by (simp add: take_Suc_conv_app_nth)
  have dr: "drop ?n (d[i := f ! (i * DECIMATION_FACTOR)]) = drop ?n d"
    using lt by simp
  have u: "[i..<?n] = i # [Suc i..<?n]" using lt by (simp add: upt_conv_Cons)
  show ?case unfolding step ih t dr u by simp
qed

lemma decimate_closed:
  assumes "len \<le> length f" "len div DECIMATION_FACTOR \<le> length d"
  shows "decimate d f len = Some (map (\<lambda>k. f ! (k * 20)) [0..<len div 20] @ drop (len div 20) d, len div 20)"
  using decimate_loop_closed[of 0 len d f] assms
  by (simp add: decimate_def DECIMATION_FACTOR_eq)

text \<open>
  Claim C6. With the decimation factor \<open>SAMPLE_RATE div AUDIO_RATE = 20\<close>, \<open>decimate\<close>
  on \<open>len\<close> input samples returns \<open>len div 20\<close> and has written exactly that many
  cells, cell \<open>k\<close> holding input sample \<open>k * 20\<close>; the rest of the output array is
  untouched. The input samples from index \<open>(len div 20) * 20\<close> on (the trailing
  \<open>len mod 20\<close>) have no influence on the result. For \<open>len = 100\<close> the five outputs are
  the inputs at 0, 20, 40, 60 and 80.
\<close>

theorem decimate_keeps_every_20th:
  assumes "len \<le> length freq_samples"
    and "len div DECIMATION_FACTOR \<le> length decimated_samples"
  shows "DECIMATION_FACTOR = SAMPLE_RATE div AUDIO_RATE \<and> DECIMATION_FACTOR = 20 \<and>
         decimate decimated_samples freq_samples len =
           Some (map (\<lambda>k. freq_samples ! (k * 20)) [0..<len div 20]
                   @ drop (len div 20) decimated_samples, len div 20) \<and>
         (\<forall>g. length g = length freq_samples \<and>
               take (len div 20 * 20) g = take (len div 20 * 20) freq_samples \<longrightarrow>
               decimate decimated_samples g len = decimate decimated_samples freq_samples len) \<and>
         (len = 100 \<longrightarrow>
            decimate decimated_samples freq_samples len =
              Some ([freq_samples ! 0, freq_samples ! 20, freq_samples ! 40, freq_samples ! 60,
                     freq_samples ! 80] @ drop 5 decimated_samples, 5))"
proof -
  have closed: "decimate decimated_samples freq_samples len =
           Some (map (\<lambda>k. freq_samples ! (k * 20)) [0..<len div 20]
                   @ drop (len div 20) decimated_samples, len div 20)"
    using assms by (rule decimate_closed)
  have tail: "decimate decimated_samples g len = decimate decimated_samples freq_samples len"
    if g: "length g = length freq_samples"
      "take (len div 20 * 20) g = take (len div 20 * 20) freq_samples" for g
  proof -
    have "g ! (k * 20) = freq_samples ! (k * 20)" if "k < len div 20" for k
    proof -
      from that have "k * 20 < len div 20 * 20" by simp
      then have "take (len div 20 * 20) g ! (k * 20) = g ! (k * 20)"
        and "take (len div 20 * 20) freq_samples ! (k * 20) = freq_samples ! (k * 20)"
        by simp_all
      with g(2) show ?thesis by simp
    qed
    then have "map (\<lambda>k. g ! (k * 20)) [0..<len div 20] =
               map (\<lambda>k. freq_samples ! (k * 20)) [0..<len div 20]"
      by simp
    moreover have "decimate decimated_samples g len =
           Some (map (\<lambda>k. g ! (k * 20)) [0..<len div 20]
                   @ drop (len div 20) decimated_samples, len div 20)"
      using assms g(1) by (intro decimate_closed) simp_all
    ultimately show ?thesis using closed by simp
  qed
  have hundred: "map (\<lambda>k. freq_samples ! (k * 20)) [0..<5] =
     [freq_samples ! 0, freq_samples ! 20, freq_samples ! 40, freq_samples ! 60, freq_samples ! 80]"
    by (simp add: upt_conv_Cons)
  have five: "decimate decimated_samples freq_samples len =
              Some ([freq_samples ! 0, freq_samples ! 20, freq_samples ! 40, freq_samples ! 60,
                     freq_samples ! 80] @ drop 5 decimated_samples, 5)" if "len = 100"
    using closed hundred that by simp
  have df: "DECIMATION_FACTOR = SAMPLE_RATE div AUDIO_RATE"
    by (simp add: DECIMATION_FACTOR_def)
  from df DECIMATION_FACTOR_eq closed tail five show ?thesis
    by blast
qed

theorem decimate_keeps_every_20th_witness:
  "(100::nat) \<le> length (map real [0..<100]) \<and>
   100 div DECIMATION_FACTOR \<le> length (replicate 5 (0::real)) \<and>
   decimate (replicate 5 0) (map real [0..<100]) 100 = Some ([0, 20, 40, 60, 80], 5)"
proof -
  have l: "length (map real [0..<100]) = 100" by simp
  have h1: "(100::nat) \<le> length (map real [0..<100])" by simp
  have h2: "100 div DECIMATION_FACTOR \<le> length (replicate 5 (0::real))"
    by (simp add: DECIMATION_FACTOR_eq)
  have n: "map real [0..<100] ! 0 = 0" "map real [0..<100] ! 20 = 20" "map real [0..<100] ! 40 = 40"
    "map real [0..<100] ! 60 = 60" "map real [0..<100] ! 80 = 80"
    by (simp_all del: upt_Suc)
  from decimate_keeps_every_20th [OF h1 h2]
  have "decimate (replicate 5 0) (map real [0..<100]) 100 =
              Some ([map real [0..<100] ! 0, map real [0..<100] ! 20, map real [0..<100] ! 40,
                     map real [0..<100] ! 60, map real [0..<100] ! 80] @ drop 5 (replicate 5 0), 5)"
    by blast
  then have "decimate (replicate 5 0) (map real [0..<100]) 100 = Some ([0, 20, 40, 60, 80], 5)"
    unfolding n by simp
  with h1 h2 show ?thesis by blast
qed

section \<open>Properties of the frequency discriminator\<close>

text \<open>
  The splitting loop of \<open>demodulate\<close> and the loop of \<open>get_freq_values\<close> in closed form: which
  cells are written, and from which pairs. The values of the samples are the subject of
  the section on the discriminator in binary32.
\<close>

lemma demodulate_loop_even:
  assumes "length is = n" "length qs = n" "2 * n \<le> length buffer" "i \<le> n"
  shows "demodulate_loop buffer (2 * n) is qs i (2 * i) =
         Some (take i is @ map (\<lambda>k. convert_value (buffer ! (2 * k))) [i..<n],
               take i qs @ map (\<lambda>k. convert_value (buffer ! (2 * k + 1))) [i..<n])"
  using assms
proof (induction "n - i" arbitrary: i "is" qs)
  case 0
  then have "i = n" by simp
  with 0 show ?case by (subst demodulate_loop.simps) simp
next
  case (Suc m)
  from Suc.hyps(2) have lt: "i < n" by simp
  let ?is = "is[i := convert_value (buffer ! (2 * i))]"
  let ?qs = "qs[i := convert_value (buffer ! (2 * i + 1))]"
  have step: "demodulate_loop buffer (2 * n) is qs i (2 * i) =
              demodulate_loop buffer (2 * n) ?is ?qs (Suc i) (2 * Suc i)"
    using lt Suc.prems
    by (subst demodulate_loop.simps) (simp add: load_def store_def)
  have ih: "demodulate_loop buffer (2 * n) ?is ?qs (Suc i) (2 * Suc i) =
     Some (take (Suc i) ?is @ map (\<lambda>k. convert_value (buffer ! (2 * k))) [Suc i..<n],
           take (Suc i) ?qs @ map (\<lambda>k. convert_value (buffer ! (2 * k + 1))) [Suc i..<n])"
    using Suc.hyps(2) lt Suc.prems by (intro Suc.hyps(1)) simp_all
  have t: "take (Suc i) ?is = take i is @ [convert_value (buffer ! (2 * i))]"
    "take (Suc i) ?qs = take i qs @ [convert_value (buffer ! (2 * i + 1))]"
    using lt Suc.prems by (simp_all add: take_Suc_conv_app_nth)
  have u: "[i..<n] = i # [Suc i..<n]" using lt by (simp add: upt_conv_Cons)
  show ?case unfolding step ih t u by simp
qed

lemma get_freq_loop_closed:
  assumes "i \<le> len - 1" "len - 1 \<le> length f" "len \<le> length is" "len \<le> length qs"
  shows "get_freq_loop f is qs len i =
         Some (take i f
               @ map (\<lambda>k. get_instant_freq (is ! k) (qs ! k) (is ! (k + 1)) (qs ! (k + 1))) [i..<len - 1]
               @ drop (len - 1) f)"
  using assms
proof (induction "len - 1 - i" arbitrary: i f)
  case 0
  then have "i = len - 1" by simp
  then show ?case by (subst get_freq_loop.simps) simp
next
  case (Suc m)
  from Suc.hyps(2) have lt: "i < len - 1" by simp
  let ?v = "get_instant_freq (is ! i) (qs ! i) (is ! (i + 1)) (qs ! (i + 1))"
  have bounds: "i < length is" "i < length qs" "Suc i < length is" "Suc i < length qs"
    "i < length f"
    using lt Suc.prems by arith+
  have step: "get_freq_loop f is qs len i = get_freq_loop (f[i := ?v]) is qs len (Suc i)"
    using lt bounds
    by (subst get_freq_loop.simps) (simp add: load_def store_def)
  have ih: "get_freq_loop (f[i := ?v]) is qs len (Suc i) =
         Some (take (Suc i) (f[i := ?v])
               @ map (\<lambda>k. get_instant_freq (is ! k) (qs ! k) (is ! (k + 1)) (qs ! (k + 1))) [Suc i..<len - 1]
               @ drop (len - 1) (f[i := ?v]))"
    using Suc.hyps(2) lt Suc.prems by (intro Suc.hyps(1)) simp_all
  have t: "take (Suc i) (f[i := ?v]) = take i f @ [?v]"
    using lt Suc.prems by (simp add: take_Suc_conv_app_nth)
  have dr: "drop (len - 1) (f[i := ?v]) = drop (len - 1) f"
    using lt by simp
  have u: "[i..<len - 1] = i # [Suc i..<len - 1]" using lt by (simp add: upt_conv_Cons)
  show ?case unfolding step ih t dr u by simp
qed

lemma get_freq_values_closed:
  assumes "len - 1 \<le> length f" "len \<le> length is" "len \<le> length qs"
  shows "get_freq_values f is qs len =
         Some (map (\<lambda>k. get_instant_freq (is ! k) (qs ! k) (is ! (k + 1)) (qs ! (k + 1))) [0..<len - 1]
               @ drop (len - 1) f)"
  using get_freq_loop_closed[of 0 len f "is" qs] assms by (simp add: get_freq_values_def)

lemma get_freq_values_SomeD:
  assumes "get_freq_values f is qs len = Some f1" "len - 1 \<le> length f"
    "len \<le> length is" "len \<le> length qs"
  shows "length f1 = length f"
    and "\<And>k. k < len - 1 \<Longrightarrow>
           f1 ! k = get_instant_freq (is ! k) (qs ! k) (is ! (k + 1)) (qs ! (k + 1))"
    and "\<And>k. len - 1 \<le> k \<Longrightarrow> k < length f \<Longrightarrow> f1 ! k = f ! k"
proof -
  let ?g = "\<lambda>k. get_instant_freq (is ! k) (qs ! k) (is ! (k + 1)) (qs ! (k + 1))"
  have e: "f1 = map ?g [0..<len - 1] @ drop (len - 1) f"
    using get_freq_values_closed[OF assms(2,3,4)] assms(1) by simp
  show "length f1 = length f" unfolding e using assms(2) by simp
  show "f1 ! k = ?g k" if "k < len - 1" for k
    unfolding e using that by (simp add: nth_append del: upt_Suc)
  show "f1 ! k = f ! k" if "len - 1 \<le> k" "k < length f" for k
    unfolding e using that assms(2) by (simp add: nth_append del: upt_Suc)
qed

lemma get_instant_freq_unfold:
  "get_instant_freq i1 q1 i2 q2 =
     (if atan2 q2 i2 - atan2 q1 i1 > pi then atan2 q2 i2 - atan2 q1 i1 - 2 * pi
      else if atan2 q2 i2 - atan2 q1 i1 < - pi then atan2 q2 i2 - atan2 q1 i1 + 2 * pi
      else atan2 q2 i2 - atan2 q1 i1)"
  by (simp add: get_instant_freq_def M_PI_def Let_def)

lemma atan2_quadrants:
  "atan2 (1/2) (- (1/2)) = 3 * pi / 4" "atan2 (- (1/2)) (- (1/2)) = - (3 * pi / 4)"
  "atan2 (1/2) (1/2) = pi / 4"
  by (simp_all add: atan2_def arctan_minus arctan_one)

section \<open>Properties of the de-emphasis filter\<close>

lemma deemphasize_loop_spec:
  assumes "0 < i" "len \<le> length f"
  shows "\<exists>out. deemphasize_loop f len i = Some out \<and> length out = length f \<and>
           (\<forall>k. k < i \<longrightarrow> out ! k = f ! k) \<and>
           (\<forall>k. i \<le> k \<and> k < len \<longrightarrow> out ! k = alpha * f ! k + (1 - alpha) * out ! (k - 1)) \<and>
           (\<forall>k. len \<le> k \<longrightarrow> out ! k = f ! k)"
  using assms
proof (induction "len - i" arbitrary: i f)
  case 0
  then have "deemphasize_loop f len i = Some f"
    by (subst deemphasize_loop.simps) simp
  with 0 show ?case by simp
next
  case (Suc m)
  from Suc.hyps(2) have lt: "i < len" by simp
  define v where "v = alpha * f ! i + (1 - alpha) * f ! (i - 1)"
  have bounds: "i < length f" "i - 1 < length f"
    using lt Suc.prems by arith+
  have step: "deemphasize_loop f len i = deemphasize_loop (f[i := v]) len (Suc i)"
    using lt bounds
    by (subst deemphasize_loop.simps) (simp add: load_def store_def v_def)
  have "\<exists>out. deemphasize_loop (f[i := v]) len (Suc i) = Some out \<and>
           length out = length (f[i := v]) \<and>
           (\<forall>k. k < Suc i \<longrightarrow> out ! k = f[i := v] ! k) \<and>
           (\<forall>k. Suc i \<le> k \<and> k < len \<longrightarrow>
                out ! k = alpha * f[i := v] ! k + (1 - alpha) * out ! (k - 1)) \<and>
           (\<forall>k. len \<le> k \<longrightarrow> out ! k = f[i := v] ! k)"
    using Suc.hyps(2) lt Suc.prems by (intro Suc.hyps(1)) simp_all
  then obtain out where out: "deemphasize_loop (f[i := v]) len (Suc i) = Some out"
    "length out = length f"
    "\<And>k. k < Suc i \<Longrightarrow> out ! k = f[i := v] ! k"
    "\<And>k. Suc i \<le> k \<Longrightarrow> k < len \<Longrightarrow>
        out ! k = alpha * f[i := v] ! k + (1 - alpha) * out ! (k - 1)"
    "\<And>k. len \<le> k \<Longrightarrow> out ! k = f[i := v] ! k"
    by auto
  have i_f: "i < length f" using lt Suc.prems by simp
  have a: "out ! k = f ! k" if "k < i" for k
    using out(3)[of k] that by simp
  have b: "out ! k = alpha * f ! k + (1 - alpha) * out ! (k - 1)" if "i \<le> k" "k < len" for k
  proof (cases "k = i")
    case True
    have "out ! i = v" using out(3)[of i] i_f by simp
    moreover have "out ! (i - 1) = f ! (i - 1)" using a[of "i - 1"] Suc.prems(1) by simp
    ultimately show ?thesis using True by (simp add: v_def)
  next
    case False
    with that have "Suc i \<le> k" by simp
    from out(4)[OF this that(2)] False show ?thesis by simp
  qed
  have c: "out ! k = f ! k" if "len \<le> k" for k
    using out(5)[OF that] that lt by simp
  show ?case unfolding step using out(1,2) a b c by blast
qed

lemma deemphasize_filter_spec:
  assumes "0 < length f" "len \<le> length f"
  shows "\<exists>out. deemphasize_filter f last_sample len = Some out \<and> length out = length f \<and>
           out ! 0 = alpha * f ! 0 + (1 - alpha) * last_sample \<and>
           (\<forall>k. 1 \<le> k \<and> k < len \<longrightarrow> out ! k = alpha * f ! k + (1 - alpha) * out ! (k - 1)) \<and>
           (\<forall>k. 1 \<le> k \<and> len \<le> k \<longrightarrow> out ! k = f ! k)"
proof -
  define v where "v = alpha * f ! 0 + (1 - alpha) * last_sample"
  have e: "deemphasize_filter f last_sample len = deemphasize_loop (f[0 := v]) len 1"
    using assms(1) by (simp add: deemphasize_filter_def load_def store_def v_def)
  from deemphasize_loop_spec[of 1 len "f[0 := v]"] assms
  obtain out where out: "deemphasize_loop (f[0 := v]) len 1 = Some out"
    "length out = length f"
    "\<And>k. k < 1 \<Longrightarrow> out ! k = f[0 := v] ! k"
    "\<And>k. 1 \<le> k \<Longrightarrow> k < len \<Longrightarrow>
        out ! k = alpha * f[0 := v] ! k + (1 - alpha) * out ! (k - 1)"
    "\<And>k. len \<le> k \<Longrightarrow> out ! k = f[0 := v] ! k"
    by auto
  have a: "out ! 0 = v" using out(3)[of 0] assms(1) by simp
  have b: "out ! k = alpha * f ! k + (1 - alpha) * out ! (k - 1)" if "1 \<le> k" "k < len" for k
    using out(4)[OF that] that by simp
  have c: "out ! k = f ! k" if "1 \<le> k" "len \<le> k" for k
    using out(5)[OF that(2)] that by simp
  show ?thesis unfolding e using out(1,2) a b c unfolding v_def by blast
qed

lemma alpha_value: "alpha = 1 - exp (- 1 / 48)"
  by (simp add: alpha_def TAU_def SAMPLE_RATE_def)

lemma alpha_bounds: "0 < alpha \<and> alpha < 1"
  by (simp add: alpha_def TAU_def SAMPLE_RATE_def)

lemma deemphasize_filter_SomeD:
  assumes "deemphasize_filter f l len = Some out" "0 < length f" "len \<le> length f"
  shows "length out = length f"
    and "out ! 0 = alpha * f ! 0 + (1 - alpha) * l"
    and "\<And>k. 1 \<le> k \<Longrightarrow> k < len \<Longrightarrow> out ! k = alpha * f ! k + (1 - alpha) * out ! (k - 1)"
    and "\<And>k. 1 \<le> k \<Longrightarrow> len \<le> k \<Longrightarrow> out ! k = f ! k"
  using deemphasize_filter_spec[OF assms(2,3), of l] assms(1) by auto

text \<open>
  Claim C4. On a non-empty sequence of \<open>len\<close> samples the de-emphasis filter stores
  \<open>out[0] = alpha * in[0] + (1 - alpha) * last_sample\<close> and
  \<open>out[i] = alpha * in[i] + (1 - alpha) * out[i-1]\<close> for \<open>1 \<le> i < len\<close> into the array it
  was given (its other cells keep their content), where
  \<open>alpha = 1 - exp (- 1 / (TAU * SAMPLE_RATE))\<close>, \<open>TAU\<close> is 50 microseconds and
  \<open>SAMPLE_RATE\<close> is the capture rate of 960000 samples per second, the rate before the
  decimation by \<open>SAMPLE_RATE div AUDIO_RATE\<close>.
\<close>

theorem deemphasize_filter_recurrence:
  assumes "0 < len" and "len \<le> length freq_samples"
  shows "\<exists>out. deemphasize_filter freq_samples last_sample len = Some out \<and>
           length out = length freq_samples \<and>
           out ! 0 = alpha * freq_samples ! 0 + (1 - alpha) * last_sample \<and>
           (\<forall>i. 1 \<le> i \<and> i < len \<longrightarrow>
                out ! i = alpha * freq_samples ! i + (1 - alpha) * out ! (i - 1)) \<and>
           (\<forall>i. len \<le> i \<longrightarrow> out ! i = freq_samples ! i) \<and>
           alpha = 1 - exp (- 1 / (TAU * real SAMPLE_RATE)) \<and>
           TAU = 50 / 1000000 \<and> SAMPLE_RATE = 960000 \<and>
           DECIMATION_FACTOR = SAMPLE_RATE div AUDIO_RATE"
proof -
  from assms have "0 < length freq_samples" by arith
  from deemphasize_filter_spec[OF this assms(2), of last_sample]
  obtain out where out: "deemphasize_filter freq_samples last_sample len = Some out"
    "length out = length freq_samples"
    "out ! 0 = alpha * freq_samples ! 0 + (1 - alpha) * last_sample"
    "\<forall>k. 1 \<le> k \<and> k < len \<longrightarrow> out ! k = alpha * freq_samples ! k + (1 - alpha) * out ! (k - 1)"
    "\<forall>k. 1 \<le> k \<and> len \<le> k \<longrightarrow> out ! k = freq_samples ! k"
    by blast
  have c: "\<forall>i. len \<le> i \<longrightarrow> out ! i = freq_samples ! i"
    using out(5) assms(1) by auto
  have k: "alpha = 1 - exp (- 1 / (TAU * real SAMPLE_RATE))"
    "TAU = 50 / 1000000" "SAMPLE_RATE = 960000"
    "DECIMATION_FACTOR = SAMPLE_RATE div AUDIO_RATE"
    by (simp_all add: alpha_def TAU_def SAMPLE_RATE_def DECIMATION_FACTOR_def)
  show ?thesis using out(1-4) c k by blast
qed

theorem deemphasize_filter_recurrence_witness:
  "(0::nat) < 2 \<and> 2 \<le> length [1, 3, 5 :: real] \<and>
   (\<exists>out. deemphasize_filter [1, 3, 5] 7 2 = Some out \<and> length out = 3 \<and>
      out ! 0 = alpha * 1 + (1 - alpha) * 7 \<and>
      out ! 1 = alpha * 3 + (1 - alpha) * out ! 0 \<and>
      out ! 2 = 5)"
proof -
  have h1: "(0::nat) < 2" by simp
  have h2: "2 \<le> length [1, 3, 5 :: real]" by simp
  from deemphasize_filter_recurrence [OF h1 h2, of 7]
  obtain out where out: "deemphasize_filter [1, 3, 5] 7 2 = Some out"
    "length out = length [1, 3, 5 :: real]"
    "out ! 0 = alpha * [1, 3, 5] ! 0 + (1 - alpha) * 7"
    "\<forall>i. 1 \<le> i \<and> i < 2 \<longrightarrow> out ! i = alpha * [1, 3, 5] ! i + (1 - alpha) * out ! (i - 1)"
    "\<forall>i. 2 \<le> i \<longrightarrow> out ! i = [1, 3, 5 :: real] ! i"
    by blast
  from out(4) have "out ! 1 = alpha * [1, 3, 5] ! 1 + (1 - alpha) * out ! (1 - 1)" by simp
  then have o1: "out ! 1 = alpha * 3 + (1 - alpha) * out ! 0" by simp
  from out(5) have "out ! 2 = [1, 3, 5 :: real] ! 2" by simp
  then have o2: "out ! 2 = 5" by simp
  from out(3) have o0: "out ! 0 = alpha * 1 + (1 - alpha) * 7" by simp
  from out(2) have l: "length out = 3" by simp
  from h1 h2 out(1) l o0 o1 o2 show ?thesis by blast
qed

subsection \<open>Constant input, exact arithmetic\<close>

text \<open>
  The exact recurrence on a constant input \<open>v\<close>: output \<open>k\<close> is
  \<open>v + (1 - alpha)^(k+1) * (l - v)\<close> for the carried state \<open>l\<close>, so it is \<open>v\<close> for \<open>l = v\<close>. What
  the program computes in \<^verbatim>\<open>float\<close> is the subject of the section on the de-emphasis filter
  in binary32.
\<close>

lemma deemphasize_filter_constant:
  assumes "deemphasize_filter f l len = Some out" "0 < len" "len \<le> length f"
    and "\<And>i. i < len \<Longrightarrow> f ! i = v" "k < len"
  shows "out ! k = v + (1 - alpha) ^ (k + 1) * (l - v)"
  using assms(5)
proof (induction k)
  case 0
  have p: "0 < length f" using assms(2,3) by linarith
  from deemphasize_filter_SomeD(2)[OF assms(1) p assms(3)] assms(4)[OF 0]
  show ?case by (simp add: algebra_simps)
next
  case (Suc k)
  have p: "0 < length f" using assms(2,3) by linarith
  from Suc.prems have k: "k < len" by simp
  have "out ! Suc k = alpha * f ! Suc k + (1 - alpha) * out ! (Suc k - 1)"
    using deemphasize_filter_SomeD(3)[OF assms(1) p assms(3), of "Suc k"] Suc.prems by simp
  then have "out ! Suc k = alpha * v + (1 - alpha) * (v + (1 - alpha) ^ (k + 1) * (l - v))"
    using assms(4)[OF Suc.prems] Suc.IH[OF k] by simp
  then show ?case by (simp add: algebra_simps)
qed

section \<open>Properties of the DC-block filter\<close>

lemma dc_block_loop_spec:
  assumes "0 < i" "len \<le> length b"
  shows "\<exists>out. dc_block_loop b len l i = Some out \<and> length out = length b \<and>
           (\<forall>k. k < i \<longrightarrow> out ! k = b ! k) \<and>
           (i < len \<longrightarrow> out ! i = b ! i - l + R * b ! (i - 1)) \<and>
           (\<forall>k. i < k \<and> k < len \<longrightarrow> out ! k = b ! k - b ! (k - 1) + R * out ! (k - 1)) \<and>
           (\<forall>k. len \<le> k \<longrightarrow> out ! k = b ! k)"
  using assms
proof (induction "len - i" arbitrary: i b l)
  case 0
  then have "dc_block_loop b len l i = Some b"
    by (subst dc_block_loop.simps) simp
  with 0 show ?case by simp
next
  case (Suc m)
  from Suc.hyps(2) have lt: "i < len" by simp
  define v where "v = b ! i - l + R * b ! (i - 1)"
  have bounds: "i < length b" "i - 1 < length b"
    using lt Suc.prems by arith+
  have step: "dc_block_loop b len l i = dc_block_loop (b[i := v]) len (b ! i) (Suc i)"
    using lt bounds
    by (subst dc_block_loop.simps) (simp add: load_def store_def v_def)
  have "\<exists>out. dc_block_loop (b[i := v]) len (b ! i) (Suc i) = Some out \<and>
           length out = length (b[i := v]) \<and>
           (\<forall>k. k < Suc i \<longrightarrow> out ! k = b[i := v] ! k) \<and>
           (Suc i < len \<longrightarrow> out ! Suc i = b[i := v] ! Suc i - b ! i + R * b[i := v] ! (Suc i - 1)) \<and>
           (\<forall>k. Suc i < k \<and> k < len \<longrightarrow>
                out ! k = b[i := v] ! k - b[i := v] ! (k - 1) + R * out ! (k - 1)) \<and>
           (\<forall>k. len \<le> k \<longrightarrow> out ! k = b[i := v] ! k)"
    using Suc.hyps(2) lt Suc.prems by (intro Suc.hyps(1)) simp_all
  then obtain out where out: "dc_block_loop (b[i := v]) len (b ! i) (Suc i) = Some out"
    "length out = length b"
    "\<And>k. k < Suc i \<Longrightarrow> out ! k = b[i := v] ! k"
    "Suc i < len \<Longrightarrow> out ! Suc i = b[i := v] ! Suc i - b ! i + R * b[i := v] ! (Suc i - 1)"
    "\<And>k. Suc i < k \<Longrightarrow> k < len \<Longrightarrow>
        out ! k = b[i := v] ! k - b[i := v] ! (k - 1) + R * out ! (k - 1)"
    "\<And>k. len \<le> k \<Longrightarrow> out ! k = b[i := v] ! k"
    by auto
  have a: "out ! k = b ! k" if "k < i" for k
    using out(3)[of k] that by simp
  have oi: "out ! i = v" using out(3)[of i] bounds by simp
  have b': "out ! i = b ! i - l + R * b ! (i - 1)"
    using oi by (simp add: v_def)
  have c: "out ! k = b ! k - b ! (k - 1) + R * out ! (k - 1)" if "i < k" "k < len" for k
  proof (cases "k = Suc i")
    case True
    with that have "Suc i < len" by simp
    from out(4)[OF this] have "out ! Suc i = b ! Suc i - b ! i + R * v"
      using bounds by simp
    with oi True show ?thesis by simp
  next
    case False
    with that have "Suc i < k" by simp
    from out(5)[OF this that(2)] this show ?thesis by simp
  qed
  have d: "out ! k = b ! k" if "len \<le> k" for k
    using out(6)[OF that] that lt by simp
  show ?case unfolding step using out(1,2) a b' c d by blast
qed

lemma dc_block_filter_spec:
  assumes "0 < length b" "len \<le> length b"
  shows "\<exists>out. dc_block_filter b len = Some out \<and> length out = length b \<and>
           out ! 0 = b ! 0 \<and>
           (\<forall>k. 1 \<le> k \<and> k < len \<longrightarrow> out ! k = b ! k - b ! (k - 1) + R * out ! (k - 1)) \<and>
           (\<forall>k. len \<le> k \<longrightarrow> out ! k = b ! k)"
proof -
  have e: "dc_block_filter b len = dc_block_loop b len (b ! 0) 1"
    using assms(1) by (simp add: dc_block_filter_def load_def)
  from dc_block_loop_spec[of 1 len b "b ! 0"] assms
  obtain out where out: "dc_block_loop b len (b ! 0) 1 = Some out"
    "length out = length b"
    "\<And>k. k < 1 \<Longrightarrow> out ! k = b ! k"
    "1 < len \<Longrightarrow> out ! 1 = b ! 1 - b ! 0 + R * b ! (1 - 1)"
    "\<And>k. 1 < k \<Longrightarrow> k < len \<Longrightarrow> out ! k = b ! k - b ! (k - 1) + R * out ! (k - 1)"
    "\<And>k. len \<le> k \<Longrightarrow> out ! k = b ! k"
    by auto
  have a: "out ! 0 = b ! 0" using out(3)[of 0] by simp
  have c: "out ! k = b ! k - b ! (k - 1) + R * out ! (k - 1)" if "1 \<le> k" "k < len" for k
  proof (cases "k = 1")
    case True
    with that out(4) a show ?thesis by simp
  next
    case False
    with that have "1 < k" by simp
    from out(5)[OF this that(2)] show ?thesis .
  qed
  show ?thesis unfolding e using out(1,2,6) a c by blast
qed

lemma dc_block_filter_SomeD:
  assumes "dc_block_filter b len = Some out" "0 < length b" "len \<le> length b"
  shows "length out = length b"
    and "out ! 0 = b ! 0"
    and "\<And>k. 1 \<le> k \<Longrightarrow> k < len \<Longrightarrow> out ! k = b ! k - b ! (k - 1) + R * out ! (k - 1)"
    and "\<And>k. len \<le> k \<Longrightarrow> out ! k = b ! k"
  using dc_block_filter_spec[OF assms(2,3)] assms(1) by auto

text \<open>
  Claim C5. On a non-empty sequence of \<open>len\<close> samples the DC-block filter leaves
  \<open>out[0] = in[0]\<close> and stores \<open>out[i] = in[i] - in[i-1] + R * out[i-1]\<close> for
  \<open>1 \<le> i < len\<close>, with \<open>R = 0.99\<close>; \<open>in[i-1]\<close> is the sample as it was before the filter
  overwrote it. The only state besides the buffer is \<^verbatim>\<open>last\<close>, which every call starts at
  the buffer's first sample (so \<open>out[1] = in[1] - in[0] + R * in[0]\<close>): the function takes
  the buffer and its length and returns the buffer, nothing is kept from an earlier call.
\<close>

theorem dc_block_filter_recurrence:
  assumes "0 < len" and "len \<le> length samples_buffer"
  shows "\<exists>out. dc_block_filter samples_buffer len = Some out \<and>
           length out = length samples_buffer \<and>
           out ! 0 = samples_buffer ! 0 \<and>
           (\<forall>i. 1 \<le> i \<and> i < len \<longrightarrow>
                out ! i = samples_buffer ! i - samples_buffer ! (i - 1) + R * out ! (i - 1)) \<and>
           (1 < len \<longrightarrow>
                out ! 1 = samples_buffer ! 1 - samples_buffer ! 0 + R * samples_buffer ! 0) \<and>
           (\<forall>i. len \<le> i \<longrightarrow> out ! i = samples_buffer ! i) \<and>
           R = 0.99"
proof -
  from assms have "0 < length samples_buffer" by arith
  from dc_block_filter_spec[OF this assms(2)]
  obtain out where out: "dc_block_filter samples_buffer len = Some out"
    "length out = length samples_buffer"
    "out ! 0 = samples_buffer ! 0"
    "\<forall>k. 1 \<le> k \<and> k < len \<longrightarrow>
       out ! k = samples_buffer ! k - samples_buffer ! (k - 1) + R * out ! (k - 1)"
    "\<forall>k. len \<le> k \<longrightarrow> out ! k = samples_buffer ! k"
    by blast
  have f: "out ! 1 = samples_buffer ! 1 - samples_buffer ! 0 + R * samples_buffer ! 0"
    if "1 < len"
    using out(4) that out(3) by simp
  have r: "R = 0.99" by (simp add: R_def)
  show ?thesis using out f r by blast
qed

theorem dc_block_filter_recurrence_witness:
  "(0::nat) < 3 \<and> 3 \<le> length [2, 5, 4, 8 :: real] \<and>
   (\<exists>out. dc_block_filter [2, 5, 4, 8] 3 = Some out \<and> length out = 4 \<and>
      out ! 0 = 2 \<and>
      out ! 1 = 5 - 2 + R * 2 \<and>
      out ! 2 = 4 - 5 + R * out ! 1 \<and>
      out ! 3 = 8)"
proof -
  have h1: "(0::nat) < 3" by simp
  have h2: "3 \<le> length [2, 5, 4, 8 :: real]" by simp
  from dc_block_filter_recurrence [OF h1 h2]
  obtain out where out: "dc_block_filter [2, 5, 4, 8] 3 = Some out"
    "length out = length [2, 5, 4, 8 :: real]"
    "out ! 0 = [2, 5, 4, 8] ! 0"
    "\<forall>i. 1 \<le> i \<and> i < 3 \<longrightarrow> out ! i = [2, 5, 4, 8] ! i - [2, 5, 4, 8] ! (i - 1) + R * out ! (i - 1)"
    "(1::nat) < 3 \<longrightarrow> out ! 1 = [2, 5, 4, 8] ! 1 - [2, 5, 4, 8] ! 0 + R * [2, 5, 4, 8] ! 0"
    "\<forall>i. 3 \<le> i \<longrightarrow> out ! i = [2, 5, 4, 8 :: real] ! i"
    by blast
  from out(2) have l: "length out = 4" by simp
  from out(3) have o0: "out ! 0 = 2" by simp
  from out(5) have o1: "out ! 1 = 5 - 2 + R * 2" by simp
  from out(4) have "out ! 2 = [2, 5, 4, 8] ! 2 - [2, 5, 4, 8] ! (2 - 1) + R * out ! (2 - 1)"
    by simp
  then have o2: "out ! 2 = 4 - 5 + R * out ! 1" by simp
  from out(6) have "out ! 3 = [2, 5, 4, 8 :: real] ! 3" by simp
  then have o3: "out ! 3 = 8" by simp
  from h1 h2 out(1) l o0 o1 o2 o3 show ?thesis by blast
qed

section \<open>Properties of the quantizer\<close>

text \<open>
  The loop of \<open>convert_samples\<close> on exact values, as \<open>main_iteration\<close> uses it. The values
  stored by the \<^verbatim>\<open>float\<close> computation are the subject of the section on the quantizer in
  binary32.
\<close>

lemma clamp_bounds: "- 32768 \<le> clamp res \<and> clamp res \<le> 32767"
  by (simp add: clamp_def)

lemma clamp_max_min: "clamp res = max (- 32768) (min 32767 res)"
  by (simp add: clamp_def max_def min_def)

lemma truncate_bounds:
  assumes "- 32768 \<le> x" "x \<le> 32767"
  shows "- 32768 \<le> truncate x \<and> truncate x \<le> 32767"
proof (cases "0 \<le> x")
  case True
  then have "truncate x = \<lfloor>x\<rfloor>" by (simp add: truncate_def)
  moreover have "0 \<le> \<lfloor>x\<rfloor>" using True by simp
  moreover have "\<lfloor>x\<rfloor> \<le> 32767" using assms(2) by (simp add: floor_le_iff)
  ultimately show ?thesis by simp
next
  case False
  then have "truncate x = \<lceil>x\<rceil>" by (simp add: truncate_def)
  moreover have "\<lceil>x\<rceil> \<le> 0" using False by (simp add: ceiling_le_iff)
  moreover have "- 32768 \<le> \<lceil>x\<rceil>" using assms(1) by (simp add: le_ceiling_iff)
  ultimately show ?thesis by simp
qed

lemma int16_of_float_clamp:
  "int16_of_float (clamp res) = Some (word_of_int (truncate (clamp res)))"
  using truncate_bounds[of "clamp res"] clamp_bounds[of res]
  by (simp add: int16_of_float_def)

lemma sint_int16:
  assumes "- 32768 \<le> t" "t \<le> 32767"
  shows "sint (word_of_int t :: 16 word) = t"
  using assms by (simp add: signed_of_int signed_take_bit_int_eq_self)

lemma convert_loop_spec:
  assumes "len \<le> length samples" "len \<le> length buffer"
  shows "\<exists>out. convert_loop buffer samples len i = Some out \<and> length out = length buffer \<and>
           (\<forall>k. i \<le> k \<and> k < len \<longrightarrow>
                out ! k = word_of_int (truncate (clamp (samples ! k * GAIN)))) \<and>
           (\<forall>k. k < i \<or> len \<le> k \<longrightarrow> out ! k = buffer ! k)"
  using assms
proof (induction "len - i" arbitrary: i buffer)
  case 0
  then have "convert_loop buffer samples len i = Some buffer"
    by (subst convert_loop.simps) simp
  with 0 show ?case by auto
next
  case (Suc m)
  from Suc.hyps(2) have lt: "i < len" by simp
  define w :: "16 word" where "w = word_of_int (truncate (clamp (samples ! i * GAIN)))"
  have bounds: "i < length samples" "i < length buffer"
    using lt Suc.prems by arith+
  have step: "convert_loop buffer samples len i = convert_loop (buffer[i := w]) samples len (Suc i)"
    using lt bounds
    by (subst convert_loop.simps) (simp add: load_def store_def int16_of_float_clamp w_def)
  have "\<exists>out. convert_loop (buffer[i := w]) samples len (Suc i) = Some out \<and>
           length out = length (buffer[i := w]) \<and>
           (\<forall>k. Suc i \<le> k \<and> k < len \<longrightarrow>
                out ! k = word_of_int (truncate (clamp (samples ! k * GAIN)))) \<and>
           (\<forall>k. k < Suc i \<or> len \<le> k \<longrightarrow> out ! k = buffer[i := w] ! k)"
    using Suc.hyps(2) lt Suc.prems by (intro Suc.hyps(1)) simp_all
  then obtain out where out: "convert_loop (buffer[i := w]) samples len (Suc i) = Some out"
    "length out = length buffer"
    "\<And>k. Suc i \<le> k \<Longrightarrow> k < len \<Longrightarrow>
        out ! k = word_of_int (truncate (clamp (samples ! k * GAIN)))"
    "\<And>k. k < Suc i \<or> len \<le> k \<Longrightarrow> out ! k = buffer[i := w] ! k"
    by auto
  have a: "out ! k = word_of_int (truncate (clamp (samples ! k * GAIN)))"
    if "i \<le> k" "k < len" for k
  proof (cases "k = i")
    case True
    then show ?thesis using out(4)[of i] bounds by (simp add: w_def)
  next
    case False
    with that have "Suc i \<le> k" by simp
    from out(3)[OF this that(2)] show ?thesis .
  qed
  have b: "out ! k = buffer ! k" if "k < i \<or> len \<le> k" for k
    using out(4)[of k] that lt by auto
  show ?case unfolding step using out(1,2) a b by blast
qed

section \<open>Properties of the demodulation of one buffer\<close>

lemma demodulate_split:
  assumes "2 * N \<le> length buffer"
  shows "demodulate_loop buffer (2 * N) (replicate N 0) (replicate N 0) 0 0 =
           Some (map (\<lambda>k. convert_value (buffer ! (2 * k))) [0..<N],
                 map (\<lambda>k. convert_value (buffer ! (2 * k + 1))) [0..<N])"
  using demodulate_loop_even[of "replicate N 0" N "replicate N 0" buffer 0] assms by simp

lemma demodulate_stages:
  fixes buffer :: "8 word list" and N :: nat
  defines "is \<equiv> map (\<lambda>k. convert_value (buffer ! (2 * k))) [0..<N]"
    and "qs \<equiv> map (\<lambda>k. convert_value (buffer ! (2 * k + 1))) [0..<N]"
  assumes "0 < N" "2 * N \<le> length buffer" "N \<le> length f"
  shows "\<exists>f1 f2 f3.
           get_freq_values f is qs N = Some f1 \<and>
           deemphasize_filter f1 last_sample N = Some f2 \<and>
           dc_block_filter f2 N = Some f3 \<and>
           deemphasized f last_sample buffer (2 * N) = Some f2 \<and>
           demodulate f last_sample buffer (2 * N) = Some (f3, f3 ! (N - 1)) \<and>
           length f1 = length f \<and> length f2 = length f \<and> length f3 = length f"
proof -
  have s: "demodulate_loop buffer (2 * N) (replicate N 0) (replicate N 0) 0 0 = Some (is, qs)"
    unfolding is_def qs_def using assms(4) by (rule demodulate_split)
  have "N - 1 \<le> length f" "N \<le> length is" "N \<le> length qs"
    using assms(5) by (simp_all add: is_def qs_def)
  from get_freq_values_closed[OF this]
  obtain f1 where f1: "get_freq_values f is qs N = Some f1" "length f1 = length f"
    using assms(3,5) by simp
  have "0 < length f1" "N \<le> length f1" using f1(2) assms(3,5) by linarith+
  from deemphasize_filter_spec[OF this, of last_sample]
  obtain f2 where f2: "deemphasize_filter f1 last_sample N = Some f2" "length f2 = length f"
    using f1(2) by auto
  have "0 < length f2" "N \<le> length f2" using f2(2) assms(3,5) by linarith+
  from dc_block_filter_spec[OF this]
  obtain f3 where f3: "dc_block_filter f2 N = Some f3" "length f3 = length f"
    using f2(2) by auto
  have r: "load f3 (N - 1) = Some (f3 ! (N - 1))"
    using f3(2) assms(3,5) by (simp add: load_def)
  have d: "demodulate f last_sample buffer (2 * N) = Some (f3, f3 ! (N - 1))"
    using assms(3) r by (simp add: demodulate_def s f1(1) f2(1) f3(1))
  have e: "deemphasized f last_sample buffer (2 * N) = Some f2"
    by (simp add: deemphasized_def s f1(1) f2(1))
  show ?thesis using f1 f2 f3 d e by blast
qed

text \<open>Each filter is causal: output \<open>k\<close> depends on the inputs up to \<open>k\<close> only.\<close>

lemma deemphasize_filter_prefix:
  assumes "deemphasize_filter f l len = Some out" "deemphasize_filter f' l len = Some out'"
    and "0 < length f" "len \<le> length f" "length f' = length f"
    and "\<And>j. j < m \<Longrightarrow> f ! j = f' ! j" "m \<le> len" "k < m"
  shows "out ! k = out' ! k"
  using assms(8)
proof (induction k)
  case 0
  have "out ! 0 = alpha * f ! 0 + (1 - alpha) * l"
    using deemphasize_filter_SomeD(2)[OF assms(1,3,4)] .
  moreover have "out' ! 0 = alpha * f' ! 0 + (1 - alpha) * l"
    using deemphasize_filter_SomeD(2)[OF assms(2)] assms(3,4,5) by simp
  ultimately show ?case using assms(6)[OF 0] by simp
next
  case (Suc k)
  then have k: "k < m" "Suc k < len" using assms(7) by simp_all
  have "out ! Suc k = alpha * f ! Suc k + (1 - alpha) * out ! (Suc k - 1)"
    using deemphasize_filter_SomeD(3)[OF assms(1,3,4), of "Suc k"] k by simp
  moreover have "out' ! Suc k = alpha * f' ! Suc k + (1 - alpha) * out' ! (Suc k - 1)"
    using deemphasize_filter_SomeD(3)[OF assms(2), of "Suc k"] k assms(3,4,5) by simp
  ultimately show ?case using assms(6)[OF Suc.prems] Suc.IH[OF k(1)] by simp
qed

lemma dc_block_filter_prefix:
  assumes "dc_block_filter b len = Some out" "dc_block_filter b' len = Some out'"
    and "0 < length b" "len \<le> length b" "length b' = length b"
    and "\<And>j. j < m \<Longrightarrow> b ! j = b' ! j" "m \<le> len" "k < m"
  shows "out ! k = out' ! k"
  using assms(8)
proof (induction k)
  case 0
  have "out ! 0 = b ! 0"
    using dc_block_filter_SomeD(2)[OF assms(1,3,4)] .
  moreover have "out' ! 0 = b' ! 0"
    using dc_block_filter_SomeD(2)[OF assms(2)] assms(3,4,5) by simp
  ultimately show ?case using assms(6)[OF 0] by simp
next
  case (Suc k)
  then have k: "k < m" "Suc k < len" using assms(7) by simp_all
  have "out ! Suc k = b ! Suc k - b ! (Suc k - 1) + R * out ! (Suc k - 1)"
    using dc_block_filter_SomeD(3)[OF assms(1,3,4), of "Suc k"] k by simp
  moreover have "out' ! Suc k = b' ! Suc k - b' ! (Suc k - 1) + R * out' ! (Suc k - 1)"
    using dc_block_filter_SomeD(3)[OF assms(2), of "Suc k"] k assms(3,4,5) by simp
  ultimately show ?case using assms(6)[OF Suc.prems] assms(6)[OF k(1)] Suc.IH[OF k(1)] by simp
qed

lemma demodulate_last_cell:
  fixes buffer :: "8 word list" and N :: nat
  defines "is \<equiv> map (\<lambda>k. convert_value (buffer ! (2 * k))) [0..<N]"
    and "qs \<equiv> map (\<lambda>k. convert_value (buffer ! (2 * k + 1))) [0..<N]"
  assumes "0 < N" "2 * N \<le> length buffer" "N \<le> length f"
    and "get_freq_values f is qs N = Some f1"
    and "deemphasize_filter f1 last_sample N = Some f2"
    and "dc_block_filter f2 N = Some f3"
  shows "f1 ! (N - 1) = f ! (N - 1)"
    and "f2 ! (N - 1) =
           alpha * f ! (N - 1) + (1 - alpha) * (if N = 1 then last_sample else f2 ! (N - 2))"
    and "f3 ! (N - 1) =
           (if N = 1 then f2 ! (N - 1) else f2 ! (N - 1) - f2 ! (N - 2) + R * f3 ! (N - 2))"
proof -
  have l: "N - 1 \<le> length f" "N \<le> length is" "N \<le> length qs" "N - 1 < length f"
    using assms(3,5) by (simp_all add: is_def qs_def)
  have l1: "length f1 = length f" using get_freq_values_SomeD(1)[OF assms(6) l(1,2,3)] .
  show a: "f1 ! (N - 1) = f ! (N - 1)"
    using get_freq_values_SomeD(3)[OF assms(6) l(1,2,3), of "N - 1"] l(4) by simp
  have p1: "0 < length f1" "N \<le> length f1" using l1 assms(3,5) by linarith+
  have l2: "length f2 = length f" using deemphasize_filter_SomeD(1)[OF assms(7) p1] l1 by simp
  have p2: "0 < length f2" "N \<le> length f2" using l2 assms(3,5) by linarith+
  show b: "f2 ! (N - 1) =
           alpha * f ! (N - 1) + (1 - alpha) * (if N = 1 then last_sample else f2 ! (N - 2))"
  proof (cases "N = 1")
    case True
    then show ?thesis using deemphasize_filter_SomeD(2)[OF assms(7) p1] a by simp
  next
    case False
    with assms(3) have "1 \<le> N - 1" "N - 1 < N" by simp_all
    from deemphasize_filter_SomeD(3)[OF assms(7) p1 this] a False
    show ?thesis by (simp add: numeral_2_eq_2)
  qed
  show "f3 ! (N - 1) =
           (if N = 1 then f2 ! (N - 1) else f2 ! (N - 1) - f2 ! (N - 2) + R * f3 ! (N - 2))"
  proof (cases "N = 1")
    case True
    then show ?thesis using dc_block_filter_SomeD(2)[OF assms(8) p2] by simp
  next
    case False
    with assms(3) have "1 \<le> N - 1" "N - 1 < N" by simp_all
    from dc_block_filter_SomeD(3)[OF assms(8) p2 this] False
    show ?thesis by (simp add: numeral_2_eq_2)
  qed
qed

text \<open>
  Claim C2. For a buffer of \<open>2 * N\<close> bytes \<open>demodulate\<close> runs the discriminator and both
  filters with \<open>len = N\<close> and returns cell \<open>N - 1\<close> of \<open>freq_samples\<close>. The discriminator
  writes cells \<open>0 .. N-2\<close> only, so cell \<open>N - 1\<close> enters the de-emphasis filter with the
  content the caller's array had before the call. The last filtered sample and the
  returned value are computed from it: putting \<open>x\<close> into that cell before the call moves
  the returned value by \<open>alpha * (x - old content)\<close>, and \<open>alpha\<close> is not \<open>0\<close>.
\<close>

theorem demodulate_carry_from_unwritten_cell:
  fixes buffer :: "8 word list" and N :: nat
  defines "is \<equiv> map (\<lambda>k. convert_value (buffer ! (2 * k))) [0..<N]"
    and "qs \<equiv> map (\<lambda>k. convert_value (buffer ! (2 * k + 1))) [0..<N]"
  assumes "0 < N" and "length buffer = 2 * N" and "N \<le> length freq_samples"
  shows "\<exists>f1 f2 f3.
           get_freq_values freq_samples is qs N = Some f1 \<and>
           deemphasize_filter f1 last_sample N = Some f2 \<and>
           dc_block_filter f2 N = Some f3 \<and>
           demodulate freq_samples last_sample buffer (2 * N) = Some (f3, f3 ! (N - 1)) \<and>
           f1 ! (N - 1) = freq_samples ! (N - 1) \<and>
           f2 ! (N - 1) =
             alpha * freq_samples ! (N - 1)
             + (1 - alpha) * (if N = 1 then last_sample else f2 ! (N - 2)) \<and>
           f3 ! (N - 1) =
             (if N = 1 then f2 ! (N - 1) else f2 ! (N - 1) - f2 ! (N - 2) + R * f3 ! (N - 2)) \<and>
           (\<forall>x. \<exists>g3. demodulate (freq_samples[N - 1 := x]) last_sample buffer (2 * N) =
                   Some (g3, f3 ! (N - 1) + alpha * (x - freq_samples ! (N - 1)))) \<and>
           0 < alpha"
proof -
  have b2: "2 * N \<le> length buffer" using assms(4) by simp
  from demodulate_stages[OF assms(3) b2 assms(5), of last_sample]
  obtain f1 f2 f3 where st:
    "get_freq_values freq_samples is qs N = Some f1"
    "deemphasize_filter f1 last_sample N = Some f2"
    "dc_block_filter f2 N = Some f3"
    "demodulate freq_samples last_sample buffer (2 * N) = Some (f3, f3 ! (N - 1))"
    "length f1 = length freq_samples" "length f2 = length freq_samples"
    unfolding is_def qs_def by blast
  note lc = demodulate_last_cell[OF assms(3) b2 assms(5) st(1,2,3)[unfolded is_def qs_def]]
  have dep: "\<exists>g3. demodulate (freq_samples[N - 1 := x]) last_sample buffer (2 * N) =
                   Some (g3, f3 ! (N - 1) + alpha * (x - freq_samples ! (N - 1)))" for x
  proof -
    let ?f = "freq_samples[N - 1 := x]"
    have lf: "N \<le> length ?f" using assms(5) by simp
    from demodulate_stages[OF assms(3) b2 lf, of last_sample]
    obtain g1 g2 g3 where sg:
      "get_freq_values ?f is qs N = Some g1"
      "deemphasize_filter g1 last_sample N = Some g2"
      "dc_block_filter g2 N = Some g3"
      "demodulate ?f last_sample buffer (2 * N) = Some (g3, g3 ! (N - 1))"
      "length g1 = length ?f" "length g2 = length ?f"
      unfolding is_def qs_def by blast
    note lg = demodulate_last_cell[OF assms(3) b2 lf sg(1,2,3)[unfolded is_def qs_def]]
    have l: "N - 1 \<le> length freq_samples" "N \<le> length is" "N \<le> length qs"
      "N - 1 < length freq_samples" "N - 1 \<le> length ?f"
      using assms(3,5) by (simp_all add: is_def qs_def)
    have eq1: "f1 ! j = g1 ! j" if "j < N - 1" for j
      using get_freq_values_SomeD(2)[OF st(1) l(1,2,3) that]
        get_freq_values_SomeD(2)[OF sg(1) l(5) l(2,3) that] by simp
    have p1: "0 < length f1" "N \<le> length f1" using st(5) assms(3,5) by linarith+
    have q1: "length g1 = length f1" using sg(5) st(5) by simp
    have eq2: "f2 ! j = g2 ! j" if "j < N - 1" for j
      using deemphasize_filter_prefix[OF st(2) sg(2) p1 q1 eq1 _ that] by simp
    have p2: "0 < length f2" "N \<le> length f2" using st(6) assms(3,5) by linarith+
    have q2: "length g2 = length f2" using sg(6) st(6) by simp
    have eq3: "f3 ! j = g3 ! j" if "j < N - 1" for j
      using dc_block_filter_prefix[OF st(3) sg(3) p2 q2 eq2 _ that] by simp
    have x: "?f ! (N - 1) = x" using l(4) by simp
    have "g3 ! (N - 1) = f3 ! (N - 1) + alpha * (x - freq_samples ! (N - 1))"
    proof (cases "N = 1")
      case True
      then show ?thesis using lc(2,3) lg(2,3) x by (simp add: algebra_simps)
    next
      case False
      with assms(3) have "N - 2 < N - 1" by simp
      from eq2[OF this] eq3[OF this] False lc(2,3) lg(2,3) x
      show ?thesis by (simp add: algebra_simps)
    qed
    with sg(4) show ?thesis by simp
  qed
  have "0 < alpha" using alpha_bounds by simp
  with st(1-4) lc dep show ?thesis unfolding is_def qs_def by blast
qed

theorem demodulate_carry_from_unwritten_cell_witness:
  "(0::nat) < 2 \<and> length [127, 128, 127, 127 :: 8 word] = 2 * 2 \<and> 2 \<le> length [0, 4 :: real] \<and>
   (\<exists>f3 g3. demodulate [0, 4] 0 [127, 128, 127, 127] (2 * 2) = Some (f3, f3 ! 1) \<and>
      demodulate [0, 9] 0 [127, 128, 127, 127] (2 * 2) = Some (g3, f3 ! 1 + alpha * (9 - 4)))"
proof -
  have h1: "(0::nat) < 2" by simp
  have h2: "length [127, 128, 127, 127 :: 8 word] = 2 * 2" by simp
  have h3: "2 \<le> length [0, 4 :: real]" by simp
  from demodulate_carry_from_unwritten_cell [OF h1 h2 h3, of 0]
  obtain f3 where f3: "demodulate [0, 4] 0 [127, 128, 127, 127] (2 * 2) = Some (f3, f3 ! (2 - 1))"
    "\<forall>x. \<exists>g3. demodulate ([0, 4][2 - 1 := x]) 0 [127, 128, 127, 127] (2 * 2) =
                   Some (g3, f3 ! (2 - 1) + alpha * (x - [0, 4] ! (2 - 1)))"
    by blast
  from f3(2) obtain g3 where
    "demodulate ([0, 4][2 - 1 := 9]) 0 [127, 128, 127, 127] (2 * 2) =
                   Some (g3, f3 ! (2 - 1) + alpha * (9 - [0, 4] ! (2 - 1)))"
    by blast
  then have g3: "demodulate [0, 9] 0 [127, 128, 127, 127] (2 * 2) =
                   Some (g3, f3 ! 1 + alpha * (9 - 4))"
    by simp
  from f3(1) have "demodulate [0, 4] 0 [127, 128, 127, 127] (2 * 2) = Some (f3, f3 ! 1)"
    by simp
  with g3 h1 h2 h3 show ?thesis by blast
qed

subsection \<open>The value carried to the next buffer\<close>

text \<open>
  Two cells evaluated by hand, for the buffers of two I/Q pairs used below.
\<close>

lemma split_127:
  "demodulate_loop [127, 128, 127, 127] 4 (replicate 2 0) (replicate 2 0) 0 0 =
     Some ([- (1/2), - (1/2)], [1/2, - (1/2)])"
proof -
  have u: "[0..<2] = [0, 1]" by (simp add: upt_conv_Cons)
  have c: "convert_value 127 = - (1/2)" "convert_value 128 = 1/2"
    by (simp_all add: convert_value_def)
  have "demodulate_loop [127, 128, 127, 127] (2 * 2) (replicate 2 0) (replicate 2 0) 0 0 =
          Some ([- (1/2), - (1/2)], [1/2, - (1/2)])"
    using demodulate_split[of 2 "[127, 128, 127, 127]"] unfolding u by (simp add: c)
  then show ?thesis by simp
qed

lemma freq_127:
  "get_freq_values [0, 0] [- (1/2), - (1/2)] [1/2, - (1/2)] 2 = Some [pi / 2, 0]"
proof -
  have p: "\<not> pi < - (3 * pi / 2)" using pi_gt_zero by linarith
  have g: "get_instant_freq (- (1/2)) (1/2) (- (1/2)) (- (1/2)) = pi / 2"
    using pi_gt_zero by (simp add: get_instant_freq_unfold atan2_quadrants p)
  have u: "[0..<2 - 1] = [0]" by (simp add: upt_conv_Cons)
  show ?thesis
    using get_freq_values_closed[of 2 "[0, 0]" "[- (1/2), - (1/2)]" "[1/2, - (1/2)]"]
    unfolding u by (simp add: g)
qed

lemma deemphasize_filter_2:
  "deemphasize_filter [x, y] l 2 =
     Some [alpha * x + (1 - alpha) * l, alpha * y + (1 - alpha) * (alpha * x + (1 - alpha) * l)]"
proof -
  have "deemphasize_loop [alpha * x + (1 - alpha) * l, y] 2 1 =
        deemphasize_loop
          [alpha * x + (1 - alpha) * l, alpha * y + (1 - alpha) * (alpha * x + (1 - alpha) * l)] 2 2"
    by (subst deemphasize_loop.simps) (simp add: load_def store_def eval_nat_numeral)
  also have "\<dots> = Some
          [alpha * x + (1 - alpha) * l, alpha * y + (1 - alpha) * (alpha * x + (1 - alpha) * l)]"
    by (subst deemphasize_loop.simps) simp
  finally show ?thesis
    by (simp add: deemphasize_filter_def load_def store_def)
qed

lemma dc_block_filter_2:
  "dc_block_filter [a, b] 2 = Some [a, b - a + R * a]"
proof -
  have "dc_block_loop [a, b] 2 a 1 = dc_block_loop [a, b - a + R * a] 2 b 2"
    by (subst dc_block_loop.simps) (simp add: load_def store_def eval_nat_numeral)
  also have "\<dots> = Some [a, b - a + R * a]"
    by (subst dc_block_loop.simps) simp
  finally show ?thesis
    by (simp add: dc_block_filter_def load_def)
qed

text \<open>
  Claim C1 says that the value \<open>demodulate\<close> returns, which \<^verbatim>\<open>main\<close> passes to the next
  call as \<open>last_sample\<close>, is the last output of the de-emphasis stage. The function
  returns \<^verbatim>\<open>freq_samples[len/2 - 1]\<close> after \<open>dc_block_filter\<close> has overwritten the array, so
  it returns the last output of the DC-block stage. On the first buffer of a run
  (\<open>last_sample = 0\<close>) holding the two pairs \<open>(-0.5, 0.5)\<close>, \<open>(-0.5, -0.5)\<close>, with the
  array at \<open>0\<close>, the de-emphasis stage ends with \<open>(1 - alpha) * alpha * pi / 2\<close> and the
  function returns that value less \<open>(1 - R) * alpha * pi / 2\<close>.
\<close>

theorem demodulate_returns_dc_blocked_sample:
  "deemphasized [0, 0] 0 [127, 128, 127, 127] 4 =
     Some [alpha * (pi / 2), (1 - alpha) * (alpha * (pi / 2))] \<and>
   demodulate [0, 0] 0 [127, 128, 127, 127] 4 =
     Some ([alpha * (pi / 2),
            (1 - alpha) * (alpha * (pi / 2)) - alpha * (pi / 2) + R * (alpha * (pi / 2))],
           (1 - alpha) * (alpha * (pi / 2)) - alpha * (pi / 2) + R * (alpha * (pi / 2))) \<and>
   (1 - alpha) * (alpha * (pi / 2)) - alpha * (pi / 2) + R * (alpha * (pi / 2))
     \<noteq> (1 - alpha) * (alpha * (pi / 2))"
proof -
  have a: "deemphasized [0, 0] 0 [127, 128, 127, 127] 4 =
     Some [alpha * (pi / 2), (1 - alpha) * (alpha * (pi / 2))]"
    by (simp add: deemphasized_def split_127 freq_127 deemphasize_filter_2)
  have b: "demodulate [0, 0] 0 [127, 128, 127, 127] 4 =
     Some ([alpha * (pi / 2),
            (1 - alpha) * (alpha * (pi / 2)) - alpha * (pi / 2) + R * (alpha * (pi / 2))],
           (1 - alpha) * (alpha * (pi / 2)) - alpha * (pi / 2) + R * (alpha * (pi / 2)))"
    by (simp add: demodulate_def split_127 freq_127 deemphasize_filter_2 dc_block_filter_2 load_def)
  have "alpha * (pi / 2) \<noteq> 0" using alpha_bounds pi_gt_zero by simp
  then have c: "(1 - alpha) * (alpha * (pi / 2)) - alpha * (pi / 2) + R * (alpha * (pi / 2))
     \<noteq> (1 - alpha) * (alpha * (pi / 2))"
    by (simp add: R_def)
  from a b c show ?thesis by blast
qed

section \<open>Buffer lengths: no check\<close>

lemma BUFFER_SIZE_eq: "BUFFER_SIZE = 262144"
  by (simp add: BUFFER_SIZE_def)

lemma convert_samples_length:
  assumes "len \<le> length samples" "len \<le> length buffer"
  shows "\<exists>out. convert_samples buffer samples len = Some out \<and> length out = length buffer"
  using convert_loop_spec[OF assms, of 0] by (auto simp: convert_samples_def)

lemma main_iteration_runs:
  assumes "0 \<le> result" "length buffer = BUFFER_SIZE"
    and "length f = BUFFER_SIZE div 2"
    and "length d = BUFFER_SIZE div (2 * DECIMATION_FACTOR)"
  shows "\<exists>f3 r pcm.
           demodulate f last_sample buffer BUFFER_SIZE = Some (f3, r) \<and>
           main_iteration f d last_sample result buffer =
             Some (Inr (f3, map (\<lambda>k. f3 ! (k * 20)) [0..<6553], r, pcm)) \<and>
           length pcm = 6553"
proof -
  have b: "BUFFER_SIZE = 2 * 131072" by (simp add: BUFFER_SIZE_def)
  have n: "(0::nat) < 131072" "2 * 131072 \<le> length buffer" "131072 \<le> length f"
    using assms(2,3) by (simp_all add: BUFFER_SIZE_def)
  from demodulate_stages[OF n, of last_sample]
  obtain f3 where f3: "demodulate f last_sample buffer (2 * 131072) = Some (f3, f3 ! (131072 - 1))"
    "length f3 = length f"
    by blast
  have ld: "length d = 6553" using assms(4) by (simp add: BUFFER_SIZE_def DECIMATION_FACTOR_eq)
  have "131072 \<le> length f3" "131072 div DECIMATION_FACTOR \<le> length d"
    using f3(2) n(3) ld by (simp_all add: DECIMATION_FACTOR_eq)
  from decimate_closed[OF this]
  have dec: "decimate d f3 131072 = Some (map (\<lambda>k. f3 ! (k * 20)) [0..<6553], 6553)"
    using ld by simp
  let ?d = "map (\<lambda>k. f3 ! (k * 20)) [0..<6553]"
  have "6553 \<le> length ?d" "6553 \<le> length (replicate 6553 (0 :: 16 word))"
    by (simp_all del: upt_Suc)
  from convert_samples_length[OF this]
  obtain pcm where pcm: "convert_samples (replicate 6553 0) ?d 6553 = Some pcm" "length pcm = 6553"
    by auto
  have h: "BUFFER_SIZE div 2 = 131072" by (simp add: BUFFER_SIZE_def)
  have "main_iteration f d last_sample result buffer = Some (Inr (f3, ?d, f3 ! (131072 - 1), pcm))"
    unfolding main_iteration_def h using assms(1) f3(1) dec pcm(1)
    by (simp add: b del: upt_Suc)
  with f3(1) pcm(2) show ?thesis unfolding b by blast
qed

lemma demodulate_six_bytes:
  "demodulate [0, 0, 0] 0 [128, 128, 128, 128, 128, 128] 6 = Some ([0, 0, 0], 0)"
proof -
  have u: "[0..<3] = [0, 1, 2]" "[0..<3 - 1] = [0, 1]" by (simp_all add: upt_conv_Cons)
  have c: "convert_value 128 = 1/2" by (simp add: convert_value_def)
  have s: "demodulate_loop [128, 128, 128, 128, 128, 128] 6 (replicate 3 0) (replicate 3 0) 0 0 =
          Some ([1/2, 1/2, 1/2], [1/2, 1/2, 1/2])"
    using demodulate_split[of 3 "[128, 128, 128, 128, 128, 128]"] unfolding u by (simp add: c)
  have g: "get_instant_freq (1/2) (1/2) (1/2) (1/2) = 0"
    using pi_gt_zero by (simp add: get_instant_freq_unfold)
  have f: "get_freq_values [0, 0, 0] [1/2, 1/2, 1/2] [1/2, 1/2, 1/2] 3 = Some [0, 0, 0]"
    using get_freq_values_closed[of 3 "[0, 0, 0]" "[1/2, 1/2, 1/2]" "[1/2, 1/2, 1/2]"]
    unfolding u by (simp add: g)
  have e: "deemphasize_filter [0, 0, 0] 0 3 = Some [0, 0, 0]"
    by (simp add: deemphasize_filter_def deemphasize_loop.simps load_def store_def eval_nat_numeral)
  have d: "dc_block_filter [0, 0, 0] 3 = Some [0, 0, 0]"
    by (simp add: dc_block_filter_def dc_block_loop.simps load_def store_def eval_nat_numeral)
  show ?thesis
    by (simp add: demodulate_def s f e d load_def)
qed

lemma decimate_three: "decimate [] [0, 0, 0] 3 = Some ([], 0)"
  using decimate_closed[of 3 "[0, 0, 0]" "[]"] by (simp add: DECIMATION_FACTOR_eq)

text \<open>
  Claim C10 says that a raw buffer whose length is odd or not a multiple of the decimation
  factor is rejected before it is processed. Nothing in \<open>demodulate\<close>, \<open>decimate\<close> or
  \<^verbatim>\<open>main\<close> looks at a length for that. A buffer of 6 bytes (three pairs; neither 6 nor 3 is
  a multiple of 20) is demodulated like any other, and \<open>decimate\<close> then keeps
  \<open>3 div 20 = 0\<close> of its three samples.
\<close>

theorem malformed_length_is_processed:
  "6 mod DECIMATION_FACTOR \<noteq> 0 \<and> 6 div 2 mod DECIMATION_FACTOR \<noteq> 0 \<and>
   demodulate [0, 0, 0] 0 [128, 128, 128, 128, 128, 128] 6 = Some ([0, 0, 0], 0) \<and>
   decimate [] [0, 0, 0] (6 div 2) = Some ([], 0)"
  using demodulate_six_bytes decimate_three by (simp add: DECIMATION_FACTOR_eq)

text \<open>
  Claim C10 as the code has it. For every even length \<open>2 * N > 0\<close>, multiple of the
  decimation factor or not, \<open>demodulate\<close> processes the buffer and returns a value, and
  \<open>decimate\<close> keeps \<open>N div 20\<close> of the \<open>N\<close> samples, dropping the trailing \<open>N mod 20\<close>
  without a report. The driver passes its fixed \<open>BUFFER_SIZE = 262144\<close> bytes in every
  iteration, which is not a multiple of 20 (nor are its 131072 samples: 12 are dropped and
  6553 written per buffer); the only input it refuses is a failed read, by ending the
  program.
\<close>

theorem no_length_validation:
  assumes "0 < N" and "length buffer = 2 * N" and "N \<le> length freq_samples"
    and "N div DECIMATION_FACTOR \<le> length decimated_samples"
  shows "\<exists>f3 r.
           demodulate freq_samples last_sample buffer (2 * N) = Some (f3, r) \<and>
           length f3 = length freq_samples \<and>
           decimate decimated_samples f3 N =
             Some (map (\<lambda>k. f3 ! (k * 20)) [0..<N div 20] @ drop (N div 20) decimated_samples,
                   N div 20) \<and>
           (0 \<le> result \<and> 2 * N = BUFFER_SIZE \<and> length freq_samples = N \<and>
            length decimated_samples = BUFFER_SIZE div (2 * DECIMATION_FACTOR) \<longrightarrow>
              (\<exists>pcm. main_iteration freq_samples decimated_samples last_sample result buffer =
                       Some (Inr (f3, map (\<lambda>k. f3 ! (k * 20)) [0..<6553], r, pcm)) \<and>
                     length pcm = 6553)) \<and>
           (result < 0 \<longrightarrow>
              main_iteration freq_samples decimated_samples last_sample result buffer =
                Some (Inl Read_Failed)) \<and>
           BUFFER_SIZE mod DECIMATION_FACTOR = 4 \<and>
           BUFFER_SIZE div 2 mod DECIMATION_FACTOR = 12"
proof -
  have b2: "2 * N \<le> length buffer" using assms(2) by simp
  from demodulate_stages[OF assms(1) b2 assms(3), of last_sample]
  obtain f3 where f3:
    "demodulate freq_samples last_sample buffer (2 * N) = Some (f3, f3 ! (N - 1))"
    "length f3 = length freq_samples"
    by blast
  have "N \<le> length f3" using f3(2) assms(3) by simp
  from decimate_closed[OF this assms(4)]
  have dec: "decimate decimated_samples f3 N =
             Some (map (\<lambda>k. f3 ! (k * 20)) [0..<N div 20] @ drop (N div 20) decimated_samples,
                   N div 20)" .
  have drv: "\<exists>pcm. main_iteration freq_samples decimated_samples last_sample result buffer =
                       Some (Inr (f3, map (\<lambda>k. f3 ! (k * 20)) [0..<6553], f3 ! (N - 1), pcm)) \<and>
                     length pcm = 6553"
    if h: "0 \<le> result" "2 * N = BUFFER_SIZE" "length freq_samples = N"
      "length decimated_samples = BUFFER_SIZE div (2 * DECIMATION_FACTOR)"
  proof -
    have "length buffer = BUFFER_SIZE" "length freq_samples = BUFFER_SIZE div 2"
      using assms(2) h(2,3) by simp_all
    from main_iteration_runs[OF h(1) this h(4), of last_sample] f3(1) h(2)
    show ?thesis by auto
  qed
  have rf: "main_iteration freq_samples decimated_samples last_sample result buffer =
                Some (Inl Read_Failed)" if "result < 0"
    using that by (simp add: main_iteration_def)
  have k: "BUFFER_SIZE mod DECIMATION_FACTOR = 4" "BUFFER_SIZE div 2 mod DECIMATION_FACTOR = 12"
    by (simp_all add: BUFFER_SIZE_def DECIMATION_FACTOR_eq)
  from f3 dec drv rf k show ?thesis by blast
qed

theorem no_length_validation_witness:
  "(0::nat) < 131072 \<and> length (replicate 262144 (128 :: 8 word)) = 2 * 131072 \<and>
   131072 \<le> length (replicate 131072 (0 :: real)) \<and>
   131072 div DECIMATION_FACTOR \<le> length (replicate 6553 (0 :: real)) \<and>
   (\<exists>f3 r pcm.
      demodulate (replicate 131072 0) 0 (replicate 262144 128) (2 * 131072) = Some (f3, r) \<and>
      main_iteration (replicate 131072 0) (replicate 6553 0) 0 0 (replicate 262144 128) =
        Some (Inr (f3, map (\<lambda>k. f3 ! (k * 20)) [0..<6553], r, pcm)) \<and>
      length pcm = 6553)"
proof -
  have h1: "(0::nat) < 131072" by simp
  have h2: "length (replicate 262144 (128 :: 8 word)) = 2 * 131072" by simp
  have h3: "131072 \<le> length (replicate 131072 (0 :: real))" by simp
  have h4: "131072 div DECIMATION_FACTOR \<le> length (replicate 6553 (0 :: real))"
    by (simp add: DECIMATION_FACTOR_eq)
  have p: "(0::int) \<le> 0 \<and> 2 * 131072 = BUFFER_SIZE \<and>
           length (replicate 131072 (0 :: real)) = 131072 \<and>
           length (replicate 6553 (0 :: real)) = BUFFER_SIZE div (2 * DECIMATION_FACTOR)"
    by (simp add: BUFFER_SIZE_def DECIMATION_FACTOR_eq)
  from no_length_validation [OF h1 h2 h3 h4, of 0 0] p
  have "\<exists>f3 r pcm.
      demodulate (replicate 131072 0) 0 (replicate 262144 128) (2 * 131072) = Some (f3, r) \<and>
      main_iteration (replicate 131072 0) (replicate 6553 0) 0 0 (replicate 262144 128) =
        Some (Inr (f3, map (\<lambda>k. f3 ! (k * 20)) [0..<6553], r, pcm)) \<and>
      length pcm = 6553"
    by blast
  with h1 h2 h3 h4 show ?thesis by blast
qed

section \<open>The range of a frequency sample\<close>

subsection \<open>Exact arithmetic\<close>

text \<open>
  In exact arithmetic a frequency sample lies in the closed interval \<open>[- pi, pi]\<close>, and
  the value \<open>- pi\<close> is taken: both comparisons of \<open>get_instant_freq\<close> are strict, so a
  difference of exactly \<open>- pi\<close> (two opposite points) is returned as it is. The computed
  sample is another matter: the phases and their difference are rounded to \<^verbatim>\<open>float\<close> and
  compared with the \<^verbatim>\<open>double\<close> constant \<^verbatim>\<open>M_PI\<close>, which lies strictly between two neighbouring
  \<^verbatim>\<open>float\<close> values, so a computed difference is never equal to it.
\<close>

lemma atan2_range: "- pi < atan2 y x \<and> atan2 y x \<le> pi"
proof -
  have a: "- (pi / 2) < arctan (y / x)" "arctan (y / x) < pi / 2"
    by (rule arctan_lbound, rule arctan_ubound)
  consider "0 < x" | "x < 0" "0 \<le> y" | "x < 0" "y < 0" | "x = 0" by linarith
  then show ?thesis
  proof cases
    case 1
    then have "atan2 y x = arctan (y / x)" by (simp add: atan2_def)
    with a pi_gt_zero show ?thesis by linarith
  next
    case 2
    then have "y / x \<le> 0" by (simp add: divide_nonneg_neg)
    then have "arctan (y / x) \<le> 0" by simp
    moreover have "atan2 y x = arctan (y / x) + pi" using 2 by (simp add: atan2_def)
    ultimately show ?thesis using a pi_gt_zero by linarith
  next
    case 3
    then have "0 < y / x" by (simp add: divide_neg_neg)
    then have "0 < arctan (y / x)" by simp
    moreover have "atan2 y x = arctan (y / x) - pi" using 3 by (simp add: atan2_def)
    ultimately show ?thesis using a pi_gt_zero by linarith
  next
    case 4
    then have "atan2 y x = pi / 2 \<or> atan2 y x = - (pi / 2) \<or> atan2 y x = 0"
      by (simp add: atan2_def)
    then show ?thesis using pi_gt_zero by linarith
  qed
qed

lemma get_instant_freq_range_exact:
  "- pi \<le> get_instant_freq i1 q1 i2 q2 \<and> get_instant_freq i1 q1 i2 q2 \<le> pi"
proof -
  define d where "d = atan2 q2 i2 - atan2 q1 i1"
  have "- (2 * pi) < d" "d < 2 * pi"
    using atan2_range[of q1 i1] atan2_range[of q2 i2] by (simp_all add: d_def)
  moreover have "get_instant_freq i1 q1 i2 q2 =
      (if d > pi then d - 2 * pi else if d < - pi then d + 2 * pi else d)"
    by (simp add: get_instant_freq_unfold d_def)
  ultimately show ?thesis by (auto split: if_splits)
qed

lemma get_instant_freq_boundary_exact:
  "get_instant_freq (1/2) (1/2) (- (1/2)) (- (1/2)) = - pi"
  by (simp add: get_instant_freq_unfold atan2_quadrants)

subsection \<open>A lower bound of \<open>pi\<close>\<close>

lemma cos_lower_16:
  fixes x :: real
  assumes "0 < x"
  shows "(\<Sum>m<16. cos_coeff m * x ^ m) - x ^ 16 / fact 16 \<le> cos x"
proof -
  from Maclaurin_cos_expansion2[OF assms, of 16]
  obtain t where t: "cos x = (\<Sum>m<16. cos_coeff m * x ^ m) + (cos (t + 1/2 * real 16 * pi) / fact 16) * x ^ 16"
    by auto
  have "- 1 \<le> cos (t + 1/2 * real 16 * pi)" by simp
  then have "- 1 / fact 16 \<le> cos (t + 1/2 * real 16 * pi) / fact 16"
    by (intro divide_right_mono) simp_all
  then have "(- 1 / fact 16) * x ^ 16 \<le> (cos (t + 1/2 * real 16 * pi) / fact 16) * x ^ 16"
    using assms by (intro mult_right_mono) simp_all
  with t show ?thesis by simp
qed

lemma sum_16:
  fixes f :: "nat \<Rightarrow> real"
  shows "sum f {..<16} = f 0 + f 1 + f 2 + f 3 + f 4 + f 5 + f 6 + f 7 + f 8 + f 9 + f 10 + f 11
     + f 12 + f 13 + f 14 + f 15"
  by (simp add: eval_nat_numeral)

lemma cos_sum_16:
  fixes x :: real
  shows "(\<Sum>m<16. cos_coeff m * x ^ m) =
     1 - x^2 / 2 + x^4 / 24 - x^6 / 720 + x^8 / 40320 - x^10 / 3628800 + x^12 / 479001600
     - x^14 / 87178291200"
  unfolding sum_16 by (simp add: cos_coeff_def fact_numeral)

lemma cos_taylor_scaled:
  fixes t1 :: real
  shows "20922789888000 *
      (1 - t1 / 2 + t2 / 24 - t3 / 720 + t4 / 40320
       - t5 / 3628800 + t6 / 479001600 - t7 / 87178291200
       - t8 / 20922789888000) * K =
     20922789888000 * K - 10461394944000 * (t1 * K)
     + 871782912000 * (t2 * K) - 29059430400 * (t3 * K)
     + 518918400 * (t4 * K) - 5765760 * (t5 * K)
     + 43680 * (t6 * K) - 240 * (t7 * K) - t8 * K"
  by (simp add: algebra_simps)

lemma cos_taylor_cleared:
  fixes A B :: real
  assumes "B \<noteq> 0"
  shows "20922789888000 *
      (1 - (A / B)^2 / 2 + (A / B)^4 / 24 - (A / B)^6 / 720 + (A / B)^8 / 40320
       - (A / B)^10 / 3628800 + (A / B)^12 / 479001600 - (A / B)^14 / 87178291200
       - (A / B)^16 / 20922789888000) * B^16 =
     20922789888000 * B^16 - 10461394944000 * (A^2 * B^14)
     + 871782912000 * (A^4 * B^12) - 29059430400 * (A^6 * B^10)
     + 518918400 * (A^8 * B^8) - 5765760 * (A^10 * B^6)
     + 43680 * (A^12 * B^4) - 240 * (A^14 * B^2) - A^16"
proof -
  have p: "(A / B)^2 * B^16 = A^2 * B^14" "(A / B)^4 * B^16 = A^4 * B^12"
    "(A / B)^6 * B^16 = A^6 * B^10" "(A / B)^8 * B^16 = A^8 * B^8"
    "(A / B)^10 * B^16 = A^10 * B^6" "(A / B)^12 * B^16 = A^12 * B^4"
    "(A / B)^14 * B^16 = A^14 * B^2" "(A / B)^16 * B^16 = A^16"
    using assms by (simp_all add: field_simps flip: power_add)
  show ?thesis unfolding cos_taylor_scaled p ..
qed

lemma cos_taylor_positive_int:
  "(0::int) < 20922789888000 * 6250000^16 - 10461394944000 * (9817477^2 * 6250000^14)
     + 871782912000 * (9817477^4 * 6250000^12) - 29059430400 * (9817477^6 * 6250000^10)
     + 518918400 * (9817477^8 * 6250000^8) - 5765760 * (9817477^10 * 6250000^6)
     + 43680 * (9817477^12 * 6250000^4) - 240 * (9817477^14 * 6250000^2) - 9817477^16"
  by simp

lemma cos_taylor_positive:
  "(0::real) < 1 - (9817477 / 6250000)^2 / 2 + (9817477 / 6250000)^4 / 24
       - (9817477 / 6250000)^6 / 720 + (9817477 / 6250000)^8 / 40320
       - (9817477 / 6250000)^10 / 3628800 + (9817477 / 6250000)^12 / 479001600
       - (9817477 / 6250000)^14 / 87178291200
       - (9817477 / 6250000)^16 / 20922789888000"
  (is "0 < ?E")
proof -
  have "(0::real) < of_int (20922789888000 * 6250000^16 - 10461394944000 * (9817477^2 * 6250000^14)
     + 871782912000 * (9817477^4 * 6250000^12) - 29059430400 * (9817477^6 * 6250000^10)
     + 518918400 * (9817477^8 * 6250000^8) - 5765760 * (9817477^10 * 6250000^6)
     + 43680 * (9817477^12 * 6250000^4) - 240 * (9817477^14 * 6250000^2) - 9817477^16)"
    using cos_taylor_positive_int by (simp only: of_int_0_less_iff)
  also have "\<dots> = 20922789888000 * ?E * 6250000^16"
    by (subst cos_taylor_cleared) simp_all
  finally have "0 < 20922789888000 * ?E * 6250000^16" .
  then show ?thesis by (simp add: zero_less_mult_iff)
qed

lemma pi_lower: "(314159264 :: real) / 100000000 < pi"
proof -
  define x :: real where "x = 9817477 / 6250000"
  have pos: "0 < x" by (simp add: x_def)
  have "(\<Sum>m<16. cos_coeff m * x ^ m) - x ^ 16 / fact 16 =
        1 - x^2 / 2 + x^4 / 24 - x^6 / 720 + x^8 / 40320 - x^10 / 3628800 + x^12 / 479001600
        - x^14 / 87178291200 - x^16 / 20922789888000"
    unfolding cos_sum_16 by (simp add: fact_numeral)
  moreover have "0 < 1 - x^2 / 2 + x^4 / 24 - x^6 / 720 + x^8 / 40320 - x^10 / 3628800
        + x^12 / 479001600 - x^14 / 87178291200 - x^16 / 20922789888000"
    unfolding x_def by (rule cos_taylor_positive)
  ultimately have "0 < (\<Sum>m<16. cos_coeff m * x ^ m) - x ^ 16 / fact 16" by (simp only:)
  with cos_lower_16[OF pos] have c: "0 < cos x" by linarith
  have x2: "x \<le> 2" by (simp add: x_def)
  have "x < pi / 2"
  proof (rule ccontr)
    assume "\<not> x < pi / 2"
    then have "pi / 2 \<le> x" by simp
    moreover have "x \<le> pi" using pi_ge_two x2 by linarith
    ultimately have "cos x \<le> cos (pi / 2)"
      using pi_gt_zero by (intro cos_monotone_0_pi_le) simp_all
    with c show False by simp
  qed
  moreover have "(314159264 :: real) / 100000000 = 2 * x" by (simp add: x_def)
  ultimately show ?thesis by linarith
qed

subsection \<open>Binary32 numbers around \<open>pi\<close>\<close>

lemma is_binary32_minus: "is_binary32 x \<Longrightarrow> is_binary32 (- x)"
  unfolding is_binary32_def
proof (elim exE conjE)
  fix m e :: int
  assume "\<bar>m\<bar> < 2 ^ 24" "- 149 \<le> e" "e \<le> 104" "x = of_int m * 2 powi e"
  then have "\<bar>- m\<bar> < 2 ^ 24 \<and> - 149 \<le> e \<and> e \<le> 104 \<and> - x = of_int (- m) * 2 powi e"
    by simp
  then show "\<exists>m e :: int. \<bar>m\<bar> < 2 ^ 24 \<and> - 149 \<le> e \<and> e \<le> 104 \<and> - x = of_int m * 2 powi e"
    by blast
qed

lemma is_binary32_dyadic:
  fixes N :: int
  assumes "\<bar>N\<bar> < 2 ^ 24" "- 149 \<le> e" "e \<le> 104"
  shows "is_binary32 (of_int N * 2 powi e)"
  unfolding is_binary32_def using assms by blast

text \<open>From 2 upwards the binary32 numbers are multiples of \<open>2^-22\<close>.\<close>

lemma binary32_grid:
  assumes "is_binary32 g" "2 \<le> g"
  shows "\<exists>N :: int. g = of_int N / 2 ^ 22"
proof -
  from assms(1) obtain m e :: int where
    me: "\<bar>m\<bar> < 2 ^ 24" "- 149 \<le> e" "e \<le> 104" "g = of_int m * 2 powi e"
    unfolding is_binary32_def by blast
  have mpos: "0 < m"
  proof (rule ccontr)
    assume "\<not> 0 < m"
    then have "of_int m * (2::real) powi e \<le> 0"
      by (simp add: mult_nonpos_nonneg)
    with me(4) assms(2) show False by simp
  qed
  have "- 22 \<le> e"
  proof (rule ccontr)
    assume "\<not> - 22 \<le> e"
    then have "e \<le> - 23" by simp
    then have "(2::real) powi e \<le> 2 powi (- 23)"
      by (intro power_int_increasing) simp_all
    moreover have "real_of_int m < 2 ^ 24" using me(1) mpos
      by (metis abs_of_pos of_int_less_numeral_power_cancel_iff)
    ultimately have "of_int m * (2::real) powi e < 2 ^ 24 * 2 powi (- 23)"
      using mpos by (intro mult_less_le_imp_less) simp_all
    also have "\<dots> = 2" by (simp add: power_int_minus)
    finally show False using me(4) assms(2) by simp
  qed
  then obtain k :: nat where k: "e = int k - 22"
    by (metis add.commute diff_add_cancel nonneg_int_cases uminus_add_conv_diff
        diff_ge_0_iff_ge)
  have "(2::real) powi e = 2 ^ k / 2 ^ 22"
    unfolding k by (simp add: power_int_diff)
  then have "g = of_int (m * 2 ^ k) / 2 ^ 22"
    using me(4) by simp
  then show ?thesis by blast
qed

lemma binary32_gap:
  assumes "is_binary32 g"
  shows "g \<le> 13176794 / 2 ^ 22 \<or> 13176795 / 2 ^ 22 \<le> g"
proof (cases "2 \<le> g")
  case True
  from binary32_grid[OF assms True] obtain N :: int where N: "g = of_int N / 2 ^ 22" by blast
  have "N \<le> 13176794 \<or> 13176795 \<le> N" by linarith
  then show ?thesis
  proof
    assume "N \<le> 13176794"
    then have "real_of_int N \<le> 13176794" by simp
    then show ?thesis unfolding N by (simp add: divide_right_mono)
  next
    assume "13176795 \<le> N"
    then have "13176795 \<le> real_of_int N" by simp
    then show ?thesis unfolding N by (simp add: divide_right_mono)
  qed
next
  case False
  then show ?thesis by simp
qed

lemma binary32_consts:
  "is_binary32 0" "is_binary32 (13176794 / 2 ^ 22)" "is_binary32 (13176795 / 2 ^ 22)"
  "is_binary32 (13176795 / 2 ^ 21)"
proof -
  show "is_binary32 0"
    using is_binary32_dyadic[of 0 0] by simp
  show "is_binary32 (13176794 / 2 ^ 22)"
    using is_binary32_dyadic[of 13176794 "- 22"] by (simp add: power_int_minus field_simps)
  show "is_binary32 (13176795 / 2 ^ 22)"
    using is_binary32_dyadic[of 13176795 "- 22"] by (simp add: power_int_minus field_simps)
  show "is_binary32 (13176795 / 2 ^ 21)"
    using is_binary32_dyadic[of 13176795 "- 21"] by (simp add: power_int_minus field_simps)
qed

lemma nearest32_le:
  assumes "nearest32 x r" "is_binary32 u" "x \<le> u"
  shows "r \<le> u"
proof -
  from assms(1,2) have "\<bar>r - x\<bar> \<le> \<bar>u - x\<bar>" unfolding nearest32_def by blast
  with assms(3) show ?thesis by linarith
qed

lemma nearest32_ge:
  assumes "nearest32 x r" "is_binary32 l" "l \<le> x"
  shows "l \<le> r"
proof -
  from assms(1,2) have "\<bar>r - x\<bar> \<le> \<bar>l - x\<bar>" unfolding nearest32_def by blast
  with assms(3) show ?thesis by linarith
qed

lemma nearest32_dist:
  assumes "nearest32 x r" "is_binary32 g"
  shows "\<bar>r - x\<bar> \<le> \<bar>g - x\<bar>"
  using assms unfolding nearest32_def by blast

lemma nearest64_exact:
  assumes "nearest64 x y" "is_binary64 x"
  shows "y = x"
proof -
  from assms have "\<bar>y - x\<bar> \<le> \<bar>x - x\<bar>" unfolding nearest64_def by blast
  then show ?thesis by simp
qed

lemma nearest32_minus: "nearest32 x r \<Longrightarrow> nearest32 (- x) (- r)"
  unfolding nearest32_def
proof (intro conjI allI impI)
  assume a: "is_binary32 r \<and> (\<forall>g. is_binary32 g \<longrightarrow> \<bar>r - x\<bar> \<le> \<bar>g - x\<bar>)"
  then show "is_binary32 (- r)" by (simp add: is_binary32_minus)
  fix g assume "is_binary32 g"
  then have "is_binary32 (- g)" by (rule is_binary32_minus)
  with a have "\<bar>r - x\<bar> \<le> \<bar>- g - x\<bar>" by blast
  then show "\<bar>- r - - x\<bar> \<le> \<bar>g - - x\<bar>" by linarith
qed

lemma is_binary64_minus: "is_binary64 x \<Longrightarrow> is_binary64 (- x)"
  unfolding is_binary64_def
proof (elim exE conjE)
  fix m e :: int
  assume "\<bar>m\<bar> < 2 ^ 53" "- 1074 \<le> e" "e \<le> 971" "x = of_int m * 2 powi e"
  then have "\<bar>- m\<bar> < 2 ^ 53 \<and> - 1074 \<le> e \<and> e \<le> 971 \<and> - x = of_int (- m) * 2 powi e"
    by simp
  then show "\<exists>m e :: int. \<bar>m\<bar> < 2 ^ 53 \<and> - 1074 \<le> e \<and> e \<le> 971 \<and> - x = of_int m * 2 powi e"
    by blast
qed

lemma nearest64_minus: "nearest64 x r \<Longrightarrow> nearest64 (- x) (- r)"
  unfolding nearest64_def
proof (intro conjI allI impI)
  assume a: "is_binary64 r \<and> (\<forall>g. is_binary64 g \<longrightarrow> \<bar>r - x\<bar> \<le> \<bar>g - x\<bar>)"
  then show "is_binary64 (- r)" by (simp add: is_binary64_minus)
  fix g assume "is_binary64 g"
  then have "is_binary64 (- g)" by (rule is_binary64_minus)
  with a have "\<bar>r - x\<bar> \<le> \<bar>- g - x\<bar>" by blast
  then show "\<bar>- r - - x\<bar> \<le> \<bar>g - - x\<bar>" by linarith
qed

lemma M_PI_double_between:
  "13176794 / 2 ^ 22 < M_PI_double" "M_PI_double < 13176795 / 2 ^ 22" "2 < M_PI_double"
  by (simp_all add: M_PI_double_def field_simps)

lemma phase_bound:
  assumes "\<bar>a\<bar> \<le> M_PI_double" "nearest32 a p"
  shows "\<bar>p\<bar> \<le> 13176795 / 2 ^ 22"
proof -
  have "a \<le> 13176795 / 2 ^ 22" "- (13176795 / 2 ^ 22) \<le> a"
    using assms(1) M_PI_double_between(2) by linarith+
  from nearest32_le[OF assms(2) binary32_consts(3) this(1)]
    nearest32_ge[OF assms(2) is_binary32_minus[OF binary32_consts(3)] this(2)]
  show ?thesis by linarith
qed

lemma difference_bound:
  assumes "\<bar>p1\<bar> \<le> 13176795 / 2 ^ 22" "\<bar>p2\<bar> \<le> 13176795 / 2 ^ 22" "nearest32 (p2 - p1) d"
  shows "\<bar>d\<bar> \<le> 13176795 / 2 ^ 21"
proof -
  have "p2 - p1 \<le> 13176795 / 2 ^ 21" "- (13176795 / 2 ^ 21) \<le> p2 - p1"
    using assms(1,2) by (simp_all add: field_simps)
  from nearest32_le[OF assms(3) binary32_consts(4) this(1)]
    nearest32_ge[OF assms(3) is_binary32_minus[OF binary32_consts(4)] this(2)]
  show ?thesis by linarith
qed

lemma nearest_lower_step:
  fixes r y A L :: real
  assumes "\<bar>r - y\<bar> \<le> \<bar>- A - y\<bar>" "L \<le> y" "A + L \<le> 0"
  shows "A + 2 * L \<le> r"
  using assms by linarith

lemma nearest_upper_step:
  fixes r y U :: real
  assumes "\<bar>r - y\<bar> \<le> \<bar>0 - y\<bar>" "y \<le> U" "0 \<le> U"
  shows "r \<le> 2 * U"
  using assms by linarith

lemma adjust_down:
  assumes d: "is_binary32 d" and dM: "M_PI_double < d" and du: "d \<le> 13176795 / 2 ^ 21"
    and ny: "nearest64 (d - 2 * M_PI_double) y" and nr: "nearest32 y r"
  shows "- pi < r \<and> r < pi"
proof -
  have d2: "2 \<le> d" using dM M_PI_double_between(3) by linarith
  from binary32_grid[OF d d2] obtain N :: int where N: "d = of_int N / 2 ^ 22" by blast
  from binary32_gap[OF d] dM M_PI_double_between(1)
  have dl: "13176795 / 2 ^ 22 \<le> d" by linarith
  have Nl: "13176795 \<le> N"
  proof -
    from dl have "(13176795 :: real) \<le> of_int N" unfolding N by (simp add: field_simps)
    then show ?thesis by linarith
  qed
  have Nu: "N \<le> 26353590"
  proof -
    from du have "real_of_int N \<le> 26353590" unfolding N by (simp add: field_simps)
    then show ?thesis by linarith
  qed
  define K :: int where "K = N * 2 ^ 25 - 884279719003555"
  have x: "d - 2 * M_PI_double = of_int K * 2 powi (- 47)"
    by (simp add: N K_def M_PI_double_def power_int_minus field_simps)
  have "\<bar>K\<bar> < 2 ^ 53" using Nl Nu by (simp add: K_def)
  then have "is_binary64 (d - 2 * M_PI_double)"
    unfolding x is_binary64_def by (intro exI[of _ K] exI[of _ "- 47"]) simp
  from nearest64_exact[OF ny this] have y: "y = d - 2 * M_PI_double" .
  have yl: "13176795 / 2 ^ 22 - 2 * M_PI_double \<le> y" using dl y by simp
  have yu: "y \<le> 13176795 / 2 ^ 21 - 2 * M_PI_double" using du y by simp
  have dist1: "\<bar>r - y\<bar> \<le> \<bar>- (13176794 / 2 ^ 22) - y\<bar>"
    using nearest32_dist[OF nr is_binary32_minus[OF binary32_consts(2)]] .
  have dist0: "\<bar>r - y\<bar> \<le> \<bar>0 - y\<bar>"
    using nearest32_dist[OF nr binary32_consts(1)] .
  have c0: "13176794 / 2 ^ 22 + 13176795 / 2 ^ 22 \<le> 2 * M_PI_double"
    by (simp add: M_PI_double_def field_simps)
  have c0': "13176794 / 2 ^ 22 + (13176795 / 2 ^ 22 - 2 * M_PI_double) \<le> 0"
    using c0 by simp
  have low: "13176794 / 2 ^ 22 + 2 * (13176795 / 2 ^ 22 - 2 * M_PI_double) \<le> r"
    using dist1 yl c0' by (rule nearest_lower_step)
  have c1: "- (314159264 / 100000000) < 13176794 / 2 ^ 22 + 2 * (13176795 / 2 ^ 22 - 2 * M_PI_double)"
    by (simp add: M_PI_double_def field_simps)
  have c3: "0 \<le> 13176795 / 2 ^ 21 - 2 * M_PI_double"
    by (simp add: M_PI_double_def field_simps)
  have up: "r \<le> 2 * (13176795 / 2 ^ 21 - 2 * M_PI_double)"
    using dist0 yu c3 by (rule nearest_upper_step)
  have c2: "2 * (13176795 / 2 ^ 21 - 2 * M_PI_double) < (1 :: real)"
    by (simp add: M_PI_double_def field_simps)
  from low c1 up c2 pi_lower show ?thesis by linarith
qed

lemma adjust_up:
  assumes d: "is_binary32 d" and dM: "d < - M_PI_double" and du: "- (13176795 / 2 ^ 21) \<le> d"
    and ny: "nearest64 (d + 2 * M_PI_double) y" and nr: "nearest32 y r"
  shows "- pi < r \<and> r < pi"
proof -
  have "nearest64 (- d - 2 * M_PI_double) (- y)"
    using nearest64_minus[OF ny] by simp
  moreover have "nearest32 (- y) (- r)" using nr by (rule nearest32_minus)
  moreover have "is_binary32 (- d)" "M_PI_double < - d" "- d \<le> 13176795 / 2 ^ 21"
    using d dM du by (simp_all add: is_binary32_minus)
  ultimately have "- pi < - r \<and> - r < pi"
    by (intro adjust_down)
  then show ?thesis by simp
qed

lemma unadjusted:
  assumes d: "is_binary32 d" and nu: "\<not> M_PI_double < d" and nl: "\<not> d < - M_PI_double"
  shows "- pi < d \<and> d < pi"
proof -
  from binary32_gap[OF d] nu M_PI_double_between(2)
  have u: "d \<le> 13176794 / 2 ^ 22" by linarith
  from binary32_gap[OF is_binary32_minus[OF d]] nl M_PI_double_between(2)
  have l: "- (13176794 / 2 ^ 22) \<le> d" by linarith
  have "(13176794 / 2 ^ 22 :: real) < 314159264 / 100000000" by simp
  with u l pi_lower show ?thesis by linarith
qed

lemma finite_binary32: "finite {g. is_binary32 g}"
proof -
  have "{g. is_binary32 g} \<subseteq>
        (\<lambda>(m, e). real_of_int m * 2 powi e) ` ({- (2 ^ 24) .. 2 ^ 24} \<times> {- 149 .. 104})"
    unfolding is_binary32_def by force
  then show ?thesis by (rule finite_subset) simp
qed

lemma finite_binary64: "finite {g. is_binary64 g}"
proof -
  have "{g. is_binary64 g} \<subseteq>
        (\<lambda>(m, e). real_of_int m * 2 powi e) ` ({- (2 ^ 53) .. 2 ^ 53} \<times> {- 1074 .. 971})"
    unfolding is_binary64_def by force
  then show ?thesis by (rule finite_subset) simp
qed

lemma nearest32_exists: "\<exists>r. nearest32 x r"
proof -
  let ?S = "{g. is_binary32 g}"
  have ne: "?S \<noteq> {}" using binary32_consts(1) by blast
  from arg_min_if_finite[OF finite_binary32 ne, of "\<lambda>g. \<bar>g - x\<bar>"]
  have "arg_min_on (\<lambda>g. \<bar>g - x\<bar>) ?S \<in> ?S"
    and "\<not> (\<exists>g\<in>?S. \<bar>g - x\<bar> < \<bar>arg_min_on (\<lambda>g. \<bar>g - x\<bar>) ?S - x\<bar>)"
    by blast+
  then have "nearest32 x (arg_min_on (\<lambda>g. \<bar>g - x\<bar>) ?S)"
    unfolding nearest32_def by (auto simp: not_less)
  then show ?thesis ..
qed

lemma nearest64_exists: "\<exists>r. nearest64 x r"
proof -
  let ?S = "{g. is_binary64 g}"
  have "is_binary64 0" unfolding is_binary64_def by (intro exI[of _ 0]) simp
  then have ne: "?S \<noteq> {}" by blast
  from arg_min_if_finite[OF finite_binary64 ne, of "\<lambda>g. \<bar>g - x\<bar>"]
  have "arg_min_on (\<lambda>g. \<bar>g - x\<bar>) ?S \<in> ?S"
    and "\<not> (\<exists>g\<in>?S. \<bar>g - x\<bar> < \<bar>arg_min_on (\<lambda>g. \<bar>g - x\<bar>) ?S - x\<bar>)"
    by blast+
  then have "nearest64 x (arg_min_on (\<lambda>g. \<bar>g - x\<bar>) ?S)"
    unfolding nearest64_def by (auto simp: not_less)
  then show ?thesis ..
qed

lemma get_instant_freq_binary32_total: "\<exists>r. get_instant_freq_binary32 a1 a2 r"
proof -
  obtain p1 p2 where p: "nearest32 a1 p1" "nearest32 a2 p2"
    using nearest32_exists by blast
  obtain d where d: "nearest32 (p2 - p1) d" using nearest32_exists by blast
  obtain y1 r1 where a: "nearest64 (d - 2 * M_PI_double) y1" "nearest32 y1 r1"
    using nearest64_exists nearest32_exists by blast
  obtain y2 r2 where b: "nearest64 (d + 2 * M_PI_double) y2" "nearest32 y2 r2"
    using nearest64_exists nearest32_exists by blast
  consider "d > M_PI_double" | "\<not> d > M_PI_double" "d < - M_PI_double"
    | "\<not> d > M_PI_double" "\<not> d < - M_PI_double" by blast
  then show ?thesis
  proof cases
    case 1
    with p d a have "get_instant_freq_binary32 a1 a2 r1"
      unfolding get_instant_freq_binary32_def by auto
    then show ?thesis ..
  next
    case 2
    with p d b have "get_instant_freq_binary32 a1 a2 r2"
      unfolding get_instant_freq_binary32_def by auto
    then show ?thesis ..
  next
    case 3
    with p d have "get_instant_freq_binary32 a1 a2 d"
      unfolding get_instant_freq_binary32_def by auto
    then show ?thesis ..
  qed
qed

lemma get_instant_freq_binary32_range:
  assumes a1: "\<bar>a1\<bar> \<le> M_PI_double" and a2: "\<bar>a2\<bar> \<le> M_PI_double"
    and run: "get_instant_freq_binary32 a1 a2 r"
  shows "- pi < r \<and> r < pi"
proof -
  from run obtain p1 p2 d where
    p: "nearest32 a1 p1" "nearest32 a2 p2" and d: "nearest32 (p2 - p1) d"
    and r: "if d > M_PI_double then
           (\<exists>y. nearest64 (d - 2 * M_PI_double) y \<and> nearest32 y r)
         else if d < - M_PI_double then
           (\<exists>y. nearest64 (d + 2 * M_PI_double) y \<and> nearest32 y r)
         else r = d"
    unfolding get_instant_freq_binary32_def by blast
  have db: "\<bar>d\<bar> \<le> 13176795 / 2 ^ 21"
    using difference_bound[OF phase_bound[OF a1 p(1)] phase_bound[OF a2 p(2)] d] .
  have dbin: "is_binary32 d" using d unfolding nearest32_def by blast
  consider "d > M_PI_double" | "\<not> d > M_PI_double" "d < - M_PI_double"
    | "\<not> d > M_PI_double" "\<not> d < - M_PI_double" by blast
  then show ?thesis
  proof cases
    case 1
    with r obtain y where "nearest64 (d - 2 * M_PI_double) y" "nearest32 y r" by auto
    moreover have "d \<le> 13176795 / 2 ^ 21" using db by linarith
    ultimately show ?thesis using dbin 1 by (intro adjust_down)
  next
    case 2
    with r obtain y where "nearest64 (d + 2 * M_PI_double) y" "nearest32 y r" by auto
    moreover have "- (13176795 / 2 ^ 21) \<le> d" using db by linarith
    ultimately show ?thesis using dbin 2 by (intro adjust_up)
  next
    case 3
    with r have "r = d" by simp
    with unadjusted[OF dbin] 3 show ?thesis by simp
  qed
qed

lemma nearest32_exact: "is_binary32 x \<Longrightarrow> nearest32 x x"
  unfolding nearest32_def by simp

lemma nearest64_exact': "is_binary64 x \<Longrightarrow> nearest64 x x"
  unfolding nearest64_def by simp

lemma nearest32_gap_upper:
  assumes "13176794 / 2 ^ 22 \<le> x" "x \<le> 13176795 / 2 ^ 22"
    and "13176795 / 2 ^ 22 - x \<le> x - 13176794 / 2 ^ 22"
  shows "nearest32 x (13176795 / 2 ^ 22)"
  unfolding nearest32_def
proof (intro conjI allI impI)
  show "is_binary32 (13176795 / 2 ^ 22)" by (rule binary32_consts)
  fix g assume "is_binary32 g"
  from binary32_gap[OF this] assms
  show "\<bar>13176795 / 2 ^ 22 - x\<bar> \<le> \<bar>g - x\<bar>" by linarith
qed

lemma nearest32_gap_lower:
  assumes "13176794 / 2 ^ 22 \<le> x" "x \<le> 13176795 / 2 ^ 22"
    and "x - 13176794 / 2 ^ 22 \<le> 13176795 / 2 ^ 22 - x"
  shows "nearest32 x (13176794 / 2 ^ 22)"
  unfolding nearest32_def
proof (intro conjI allI impI)
  show "is_binary32 (13176794 / 2 ^ 22)" by (rule binary32_consts)
  fix g assume "is_binary32 g"
  from binary32_gap[OF this] assms
  show "\<bar>13176794 / 2 ^ 22 - x\<bar> \<le> \<bar>g - x\<bar>" by linarith
qed

lemma is_binary64_dyadic:
  fixes N :: int
  assumes "\<bar>N\<bar> < 2 ^ 53" "- 1074 \<le> e" "e \<le> 971"
  shows "is_binary64 (of_int N * 2 powi e)"
  unfolding is_binary64_def using assms by blast

lemma example_run:
  "get_instant_freq_binary32 M_PI_double 0 (13176794 / 2 ^ 22)"
proof -
  have p1: "nearest32 M_PI_double (13176795 / 2 ^ 22)"
    by (rule nearest32_gap_upper) (simp_all add: M_PI_double_def field_simps)
  have p2: "nearest32 0 0" using binary32_consts(1) by (rule nearest32_exact)
  have d: "nearest32 (0 - 13176795 / 2 ^ 22) (- (13176795 / 2 ^ 22))"
    using nearest32_exact[OF is_binary32_minus[OF binary32_consts(3)]] by simp
  have lt: "\<not> - (13176795 / 2 ^ 22) > M_PI_double" "- (13176795 / 2 ^ 22) < - M_PI_double"
    using M_PI_double_between by linarith+
  have k: "- (13176795 / 2 ^ 22) + 2 * M_PI_double = of_int 442139847198115 * 2 powi (- 47)"
    by (simp add: M_PI_double_def power_int_minus field_simps)
  have "is_binary64 (of_int 442139847198115 * 2 powi (- 47))"
    by (rule is_binary64_dyadic) simp_all
  then have "is_binary64 (- (13176795 / 2 ^ 22) + 2 * M_PI_double)"
    unfolding k .
  then have y: "nearest64 (- (13176795 / 2 ^ 22) + 2 * M_PI_double)
                  (- (13176795 / 2 ^ 22) + 2 * M_PI_double)"
    by (rule nearest64_exact')
  have r: "nearest32 (- (13176795 / 2 ^ 22) + 2 * M_PI_double) (13176794 / 2 ^ 22)"
    by (rule nearest32_gap_lower) (simp_all add: M_PI_double_def field_simps)
  have ex: "\<exists>y. nearest64 (- (13176795 / 2 ^ 22) + 2 * M_PI_double) y \<and>
                nearest32 y (13176794 / 2 ^ 22)"
    using y r by blast
  have br: "if - (13176795 / 2 ^ 22) > M_PI_double then
           (\<exists>y. nearest64 (- (13176795 / 2 ^ 22) - 2 * M_PI_double) y \<and>
                nearest32 y (13176794 / 2 ^ 22))
         else if - (13176795 / 2 ^ 22) < - M_PI_double then
           (\<exists>y. nearest64 (- (13176795 / 2 ^ 22) + 2 * M_PI_double) y \<and>
                nearest32 y (13176794 / 2 ^ 22))
         else 13176794 / 2 ^ 22 = - (13176795 / 2 ^ 22)"
    using lt ex by (simp only: if_True if_False)
  from p1 p2 d br show ?thesis
    unfolding get_instant_freq_binary32_def by blast
qed

subsection \<open>The computed sample\<close>

text \<open>
  Claim C8. Every value that the \<^verbatim>\<open>float\<close> computation of \<open>get_instant_freq\<close> can return
  lies in \<open>(- pi, pi]\<close> (in fact in the open interval), whatever the two angles that
  \<^verbatim>\<open>atan2\<close> has returned, and it always returns one.
\<close>

theorem frequency_sample_range_binary32:
  assumes "\<bar>a1\<bar> \<le> M_PI_double" and "\<bar>a2\<bar> \<le> M_PI_double"
  shows "(\<exists>r. get_instant_freq_binary32 a1 a2 r) \<and>
         (\<forall>r. get_instant_freq_binary32 a1 a2 r \<longrightarrow> - pi < r \<and> r \<le> pi)"
proof -
  have "- pi < r \<and> r \<le> pi" if "get_instant_freq_binary32 a1 a2 r" for r
    using get_instant_freq_binary32_range[OF assms that] by simp
  with get_instant_freq_binary32_total[of a1 a2] show ?thesis by blast
qed

theorem frequency_sample_range_binary32_witness:
  "\<bar>M_PI_double\<bar> \<le> M_PI_double \<and> \<bar>0\<bar> \<le> M_PI_double \<and>
   get_instant_freq_binary32 M_PI_double 0 (13176794 / 2 ^ 22) \<and>
   - pi < 13176794 / 2 ^ 22 \<and> 13176794 / 2 ^ 22 \<le> pi"
proof -
  have h1: "\<bar>M_PI_double\<bar> \<le> M_PI_double" and h2: "\<bar>0\<bar> \<le> M_PI_double"
    using M_PI_double_between(3) by simp_all
  from frequency_sample_range_binary32 [OF h1 h2] example_run
  have "- pi < 13176794 / 2 ^ 22 \<and> 13176794 / 2 ^ 22 \<le> pi" by blast
  with h1 h2 example_run show ?thesis by blast
qed

section \<open>Odd lengths\<close>

text \<open>
  With an odd \<open>len\<close> the last iteration of the splitting loop of \<open>demodulate\<close> has
  \<open>i = len div 2\<close>, the length of the two allocated arrays: it stores outside them (and
  reads \<^verbatim>\<open>buffer[len]\<close>). The model has no result for it.
\<close>

lemma demodulate_loop_odd:
  assumes "length is = n" "length qs = n" "i \<le> n"
  shows "demodulate_loop buffer (2 * n + 1) is qs i (2 * i) = None"
  using assms
proof (induction "n - i" arbitrary: i "is" qs)
  case 0
  then have i: "i = n" by simp
  show ?case unfolding i
    using 0 by (subst demodulate_loop.simps) (simp add: load_def store_def)
next
  case (Suc m)
  from Suc.hyps(2) have lt: "i < n" by simp
  show ?case
  proof (cases "2 * i + 1 < length buffer")
    case True
    let ?is = "is[i := convert_value (buffer ! (2 * i))]"
    let ?qs = "qs[i := convert_value (buffer ! (2 * i + 1))]"
    have step: "demodulate_loop buffer (2 * n + 1) is qs i (2 * i) =
              demodulate_loop buffer (2 * n + 1) ?is ?qs (Suc i) (2 * Suc i)"
      using lt Suc.prems True
      by (subst demodulate_loop.simps) (simp add: load_def store_def)
    have "demodulate_loop buffer (2 * n + 1) ?is ?qs (Suc i) (2 * Suc i) = None"
      using Suc.hyps(2) lt Suc.prems by (intro Suc.hyps(1)) simp_all
    with step show ?thesis by simp
  next
    case False
    then show ?thesis
      using lt Suc.prems
      by (subst demodulate_loop.simps) (simp add: load_def store_def)
  qed
qed

lemma demodulate_odd_length:
  "demodulate f last_sample buffer (2 * n + 1) = None"
  using demodulate_loop_odd[of "replicate n 0" n "replicate n 0" 0 buffer]
  by (simp add: demodulate_def)

section \<open>Neighbouring binary32 numbers\<close>

text \<open>
  Between \<open>M * 2^e\<close> and \<open>(M + 1) * 2^e\<close> with \<open>2^23 \<le> M\<close> there is no binary32 number, so a
  real number closer than \<open>2^e / 2\<close> to \<open>N * 2^e\<close> with \<open>2^23 < N < 2^24\<close> is rounded to it.
\<close>

lemma binary32_no_between:
  fixes M :: int
  assumes g: "is_binary32 g" and M: "2 ^ 23 \<le> M"
    and lo: "of_int M * 2 powi e < g" and hi: "g < of_int (M + 1) * 2 powi e"
  shows False
proof -
  from g obtain m k :: int where
    mk: "\<bar>m\<bar> < 2 ^ 24" "g = of_int m * 2 powi k"
    unfolding is_binary32_def by blast
  have u: "(0::real) < 2 powi e" by simp
  have gpos: "0 < g"
  proof -
    have "(0::real) \<le> of_int M * 2 powi e" using M by simp
    with lo show ?thesis by linarith
  qed
  have mpos: "0 < m"
  proof (rule ccontr)
    assume "\<not> 0 < m"
    then have "of_int m * (2::real) powi k \<le> 0"
      by (simp add: mult_nonpos_nonneg)
    with mk(2) gpos show False by simp
  qed
  show False
  proof (cases "e \<le> k")
    case True
    then obtain j :: nat where j: "k = e + int j"
      by (metis zle_iff_zadd)
    have "(2::real) powi k = 2 powi e * 2 ^ j"
      unfolding j by (simp add: power_int_add)
    then have gj: "g = of_int (m * 2 ^ j) * 2 powi e"
      using mk(2) by simp
    from lo hi have "real_of_int M < of_int (m * 2 ^ j)" "real_of_int (m * 2 ^ j) < of_int (M + 1)"
      unfolding gj using u by (simp_all only: mult_less_cancel_right_pos)
    then have "M < m * 2 ^ j" "m * 2 ^ j < M + 1"
      by (simp_all only: of_int_less_iff)
    then show False by linarith
  next
    case False
    then have "k \<le> e - 1" by simp
    then have "(2::real) powi k \<le> 2 powi (e - 1)"
      by (intro power_int_increasing) simp_all
    moreover have "real_of_int m < 2 ^ 24" using mk(1) mpos
      by (metis abs_of_pos of_int_less_numeral_power_cancel_iff)
    ultimately have "of_int m * (2::real) powi k < 2 ^ 24 * 2 powi (e - 1)"
      using mpos by (intro mult_less_le_imp_less) simp_all
    also have "\<dots> = 2 ^ 23 * 2 powi e"
      by (simp add: power_int_diff)
    also have "\<dots> \<le> of_int M * 2 powi e"
    proof -
      have "(2::real) ^ 23 \<le> of_int M" using M by (metis of_int_le_iff of_int_numeral of_int_power)
      then show ?thesis by (intro mult_right_mono) simp_all
    qed
    finally show False using mk(2) lo by simp
  qed
qed

lemma is_binary32_dyadic_le:
  fixes N :: int
  assumes "\<bar>N\<bar> \<le> 2 ^ 24" "- 149 \<le> e" "e \<le> 103"
  shows "is_binary32 (of_int N * 2 powi e)"
proof (cases "\<bar>N\<bar> < 2 ^ 24")
  case True
  then show ?thesis using assms by (intro is_binary32_dyadic) simp_all
next
  case False
  with assms(1) have "\<bar>N\<bar> = 2 ^ 24" by simp
  then have "N = 2 ^ 24 \<or> N = - (2 ^ 24)" by linarith
  then have "real_of_int N * 2 powi e = of_int (N div 2) * 2 powi (e + 1)"
    by (auto simp: power_int_add)
  moreover have "\<bar>N div 2\<bar> < 2 ^ 24" using \<open>N = 2 ^ 24 \<or> N = - (2 ^ 24)\<close> by auto
  ultimately show ?thesis using assms by (simp add: is_binary32_dyadic)
qed

lemma nearest32_unique:
  fixes N :: int
  assumes n: "nearest32 y r" and N: "2 ^ 23 < N" "N < 2 ^ 24"
    and e: "- 149 \<le> e" "e \<le> 104"
    and d: "\<bar>y - of_int N * 2 powi e\<bar> < 2 powi e / 2"
  shows "r = of_int N * 2 powi e"
proof -
  define c :: real where "c = of_int N * 2 powi e"
  define u :: real where "u = 2 powi e"
  have c: "is_binary32 c" unfolding c_def using N e by (intro is_binary32_dyadic) simp_all
  have r: "is_binary32 r" using n unfolding nearest32_def by blast
  have "\<bar>r - y\<bar> \<le> \<bar>c - y\<bar>" using n c unfolding nearest32_def by blast
  with d have rc: "\<bar>r - c\<bar> < u" unfolding c_def u_def by linarith
  have cm: "of_int (N - 1) * 2 powi e = c - u" "of_int (N + 1) * 2 powi e = c + u"
    "of_int (N - 1 + 1) * 2 powi e = c"
    unfolding c_def u_def by (simp_all add: algebra_simps)
  show ?thesis
  proof (rule ccontr)
    assume "r \<noteq> of_int N * 2 powi e"
    then have "r < c \<or> c < r" unfolding c_def by linarith
    then show False
    proof
      assume "r < c"
      moreover have "c - u < r" using rc by linarith
      ultimately show False
        using binary32_no_between[OF r, of "N - 1" e] N(1) unfolding cm by simp
    next
      assume "c < r"
      moreover have "r < c + u" using rc by linarith
      ultimately show False
        using binary32_no_between[OF r, of N e] N(1) unfolding cm c_def[symmetric] by simp
    qed
  qed
qed

section \<open>Properties of the quantizer in binary32\<close>

lemma round32_total: "\<exists>f. round32 y f"
  using nearest32_exists[of y] by (auto simp: round32_def)

lemma float_times_total: "\<exists>f. float_times x c f"
  using round32_total by (cases x) (simp_all add: float_times_def)

lemma float_times_NaN: "float_times x GAIN res \<Longrightarrow> res = NaN \<longleftrightarrow> x = NaN"
  by (cases x) (auto simp: float_times_def round32_def GAIN_def split: if_splits)

lemma clamp_binary32_range:
  assumes "res \<noteq> NaN"
  shows "\<exists>c. clamp_binary32 res = Finite c \<and> - 32768 \<le> c \<and> c \<le> 32767"
  using assms by (cases res) (auto simp: clamp_binary32_def float_greater_def float_less_def)

lemma int16_of_binary32_range:
  assumes "- 32768 \<le> c" "c \<le> 32767"
  shows "int16_of_binary32 (Finite c) = Some (word_of_int (truncate c))"
    and "sint (word_of_int (truncate c) :: 16 word) = truncate c"
  using truncate_bounds[OF assms] sint_int16[of "truncate c"]
  by (simp_all add: int16_of_binary32_def int16_of_float_def)

lemma convert_loop_binary32_spec:
  assumes "convert_loop_binary32 buffer samples len i out"
  shows "length out = length buffer \<and>
         (\<forall>k. i \<le> k \<and> k < len \<longrightarrow>
            (\<exists>res. float_times (samples ! k) GAIN res \<and>
                    int16_of_binary32 (clamp_binary32 res) = Some (out ! k))) \<and>
         (\<forall>k. k < i \<or> len \<le> k \<longrightarrow> out ! k = buffer ! k)"
  using assms
proof (induction rule: convert_loop_binary32.induct)
  case (convert_loop_binary32_exit i len buffer samples)
  then show ?case by auto
next
  case (convert_loop_binary32_body i len samples x res w buffer buffer' out)
  from convert_loop_binary32_body.hyps(2) have x: "x = samples ! i"
    by (simp add: load_def split: if_splits)
  from convert_loop_binary32_body.hyps(5) have b: "i < length buffer" "buffer' = buffer[i := w]"
    by (simp_all add: store_def split: if_splits)
  from convert_loop_binary32_body.IH have ih:
    "length out = length buffer'"
    "\<And>k. i + 1 \<le> k \<Longrightarrow> k < len \<Longrightarrow>
        \<exists>res. float_times (samples ! k) GAIN res \<and>
              int16_of_binary32 (clamp_binary32 res) = Some (out ! k)"
    "\<And>k. k < i + 1 \<or> len \<le> k \<Longrightarrow> out ! k = buffer' ! k"
    by blast+
  have oi: "out ! i = w" using ih(3)[of i] b by simp
  have a: "\<exists>res. float_times (samples ! k) GAIN res \<and>
              int16_of_binary32 (clamp_binary32 res) = Some (out ! k)"
    if "i \<le> k" "k < len" for k
  proof (cases "k = i")
    case True
    then show ?thesis
      using convert_loop_binary32_body.hyps(3,4) x oi by blast
  next
    case False
    with that have "i + 1 \<le> k" by simp
    from ih(2)[OF this that(2)] show ?thesis .
  qed
  have c: "out ! k = buffer ! k" if "k < i \<or> len \<le> k" for k
    using ih(3)[of k] that b convert_loop_binary32_body.hyps(1) by auto
  show ?case using ih(1) b(2) a c by simp
qed

lemma convert_loop_binary32_total:
  assumes "len \<le> length samples" "len \<le> length buffer"
    and "\<And>k. k < len \<Longrightarrow> samples ! k \<noteq> NaN"
  shows "\<exists>out. convert_loop_binary32 buffer samples len i out"
  using assms(2)
proof (induction "len - i" arbitrary: i buffer)
  case 0
  then have "\<not> i < len" by simp
  then show ?case using convert_loop_binary32_exit by blast
next
  case (Suc m)
  from Suc.hyps(2) have lt: "i < len" by simp
  have bounds: "i < length samples" "i < length buffer"
    using lt assms(1) Suc.prems by arith+
  from float_times_total obtain res where res: "float_times (samples ! i) GAIN res" by blast
  have "res \<noteq> NaN" using float_times_NaN[OF res] assms(3)[OF lt] by simp
  from clamp_binary32_range[OF this] obtain c where
    c: "clamp_binary32 res = Finite c" "- 32768 \<le> c" "c \<le> 32767" by blast
  define w :: "16 word" where "w = word_of_int (truncate c)"
  have w: "int16_of_binary32 (clamp_binary32 res) = Some w"
    unfolding c(1) w_def using c(2,3) by (rule int16_of_binary32_range)
  have "\<exists>out. convert_loop_binary32 (buffer[i := w]) samples len (i + 1) out"
    using Suc.hyps(2) Suc.prems by (intro Suc.hyps(1)) simp_all
  then obtain out where out: "convert_loop_binary32 (buffer[i := w]) samples len (i + 1) out" by blast
  have l: "load samples i = Some (samples ! i)" using bounds by (simp add: load_def)
  have s: "store buffer i w = Some (buffer[i := w])" using bounds by (simp add: store_def)
  from convert_loop_binary32_body[OF lt l res w s out] show ?case by blast
qed

lemma nearest32_exactD:
  assumes "nearest32 x r" "is_binary32 x"
  shows "r = x"
proof -
  from assms have "\<bar>r - x\<bar> \<le> \<bar>x - x\<bar>" unfolding nearest32_def by blast
  then show ?thesis by simp
qed

lemma float_times_exact:
  assumes "float_times (Finite v) GAIN res" "is_binary32 (v * 32767)" "\<bar>v * 32767\<bar> \<le> 65536"
  shows "res = Finite (v * 32767)"
proof -
  from assms(1,3) obtain r where r: "nearest32 (v * 32767) r" "res = Finite r"
    by (auto simp: float_times_def round32_def GAIN_def split: if_splits)
  from nearest32_exactD[OF r(1) assms(2)] r(2) show ?thesis by simp
qed

text \<open>The product is rounded before it is truncated: \<^verbatim>\<open>0x1.f403e8p-6f * 32767.0f\<close> is \<^verbatim>\<open>1000.0f\<close>.\<close>

lemma float_times_1000:
  assumes "float_times (Finite (4096125 / 134217728)) GAIN res"
  shows "res = Finite 1000"
proof -
  from assms obtain r where r: "nearest32 (4096125 / 134217728 * 32767) r" "res = Finite r"
    by (auto simp: float_times_def round32_def GAIN_def split: if_splits)
  have "r = of_int 16384000 * 2 powi (- 14)"
    using r(1) by (rule nearest32_unique) (simp_all add: power_int_minus field_simps)
  also have "\<dots> = 1000" by (simp add: power_int_minus)
  finally show ?thesis using r(2) by simp
qed

text \<open>
  Claim C7 speaks of every \<^verbatim>\<open>float\<close> sample. For a NaN sample the product is NaN, both
  comparisons are false, the value reaches the conversion unclamped, and C defines no
  result for \<^verbatim>\<open>(int16_t)\<close> of NaN.
\<close>

theorem NaN_sample_is_not_clamped:
  "float_times NaN GAIN NaN \<and> clamp_binary32 NaN = NaN \<and> int16_of_binary32 NaN = None \<and>
   \<not> (\<exists>out. convert_samples_binary32 [0] [NaN] 1 out)"
proof -
  have a: "float_times NaN GAIN NaN" by (simp add: float_times_def)
  have b: "clamp_binary32 NaN = NaN"
    by (simp add: clamp_binary32_def float_greater_def float_less_def)
  have c: "int16_of_binary32 NaN = None" by (simp add: int16_of_binary32_def)
  have d: False if "convert_loop_binary32 [0] [NaN] 1 0 out" for out
    using that
  proof (cases rule: convert_loop_binary32.cases)
    case convert_loop_binary32_exit
    then show False by simp
  next
    case (convert_loop_binary32_body x res w buffer')
    then show False using b c by (auto simp: load_def float_times_def)
  qed
  from a b c d show ?thesis unfolding convert_samples_binary32_def by blast
qed

text \<open>
  Claim C7 as the code has it. For every sample that is not NaN (finite or infinite) the
  quantizer multiplies by \<open>32767\<close> in \<^verbatim>\<open>float\<close>, replaces the product by \<open>32767\<close> when it is
  larger and by \<open>- 32768\<close> when it is smaller, and only then converts: the value converted
  is a finite \<open>c\<close> in \<open>[-32768, 32767]\<close>, the conversion is defined and the stored sample is
  the integral part of \<open>c\<close>. The samples \<open>1.5\<close>, \<open>- 2.0\<close> and \<open>0.0\<close> give \<open>32767\<close>,
  \<open>- 32768\<close> and \<open>0\<close>. Every run of the loop has these properties, and there is one.
\<close>

theorem convert_samples_binary32_saturates:
  assumes "len \<le> length samples" and "len \<le> length buffer"
    and "\<forall>i. i < len \<longrightarrow> samples ! i \<noteq> NaN"
  shows "GAIN = 32767 \<and>
         (\<exists>out. convert_samples_binary32 buffer samples len out) \<and>
         (\<forall>out. convert_samples_binary32 buffer samples len out \<longrightarrow>
            length out = length buffer \<and>
            (\<forall>i. i < len \<longrightarrow>
               (\<exists>res c. float_times (samples ! i) GAIN res \<and>
                  clamp_binary32 res = Finite c \<and> - 32768 \<le> c \<and> c \<le> 32767 \<and>
                  int16_of_binary32 (Finite c) = Some (out ! i) \<and>
                  sint (out ! i) = truncate c) \<and>
               - 32768 \<le> sint (out ! i) \<and> sint (out ! i) \<le> 32767 \<and>
               (samples ! i = Finite 1.5 \<longrightarrow> sint (out ! i) = 32767) \<and>
               (samples ! i = Finite (- 2.0) \<longrightarrow> sint (out ! i) = - 32768) \<and>
               (samples ! i = Finite 0.0 \<longrightarrow> sint (out ! i) = 0)) \<and>
            (\<forall>i. len \<le> i \<longrightarrow> out ! i = buffer ! i))"
proof -
  have nn: "\<And>k. k < len \<Longrightarrow> samples ! k \<noteq> NaN" using assms(3) by blast
  have ex: "\<exists>out. convert_samples_binary32 buffer samples len out"
    unfolding convert_samples_binary32_def
    using assms(1,2) nn by (rule convert_loop_binary32_total)
  have all: "length out = length buffer \<and>
            (\<forall>i. i < len \<longrightarrow>
               (\<exists>res c. float_times (samples ! i) GAIN res \<and>
                  clamp_binary32 res = Finite c \<and> - 32768 \<le> c \<and> c \<le> 32767 \<and>
                  int16_of_binary32 (Finite c) = Some (out ! i) \<and>
                  sint (out ! i) = truncate c) \<and>
               - 32768 \<le> sint (out ! i) \<and> sint (out ! i) \<le> 32767 \<and>
               (samples ! i = Finite 1.5 \<longrightarrow> sint (out ! i) = 32767) \<and>
               (samples ! i = Finite (- 2.0) \<longrightarrow> sint (out ! i) = - 32768) \<and>
               (samples ! i = Finite 0.0 \<longrightarrow> sint (out ! i) = 0)) \<and>
            (\<forall>i. len \<le> i \<longrightarrow> out ! i = buffer ! i)"
    if run: "convert_samples_binary32 buffer samples len out" for out
  proof -
    from convert_loop_binary32_spec[OF run[unfolded convert_samples_binary32_def]]
    have sp: "length out = length buffer"
      "\<And>k. k < len \<Longrightarrow> \<exists>res. float_times (samples ! k) GAIN res \<and>
                    int16_of_binary32 (clamp_binary32 res) = Some (out ! k)"
      "\<And>k. len \<le> k \<Longrightarrow> out ! k = buffer ! k"
      by simp_all
    have per: "(\<exists>res c. float_times (samples ! i) GAIN res \<and>
                  clamp_binary32 res = Finite c \<and> - 32768 \<le> c \<and> c \<le> 32767 \<and>
                  int16_of_binary32 (Finite c) = Some (out ! i) \<and>
                  sint (out ! i) = truncate c) \<and>
               - 32768 \<le> sint (out ! i) \<and> sint (out ! i) \<le> 32767 \<and>
               (samples ! i = Finite 1.5 \<longrightarrow> sint (out ! i) = 32767) \<and>
               (samples ! i = Finite (- 2.0) \<longrightarrow> sint (out ! i) = - 32768) \<and>
               (samples ! i = Finite 0.0 \<longrightarrow> sint (out ! i) = 0)" if i: "i < len" for i
    proof -
      from sp(2)[OF i] obtain res where res: "float_times (samples ! i) GAIN res"
        "int16_of_binary32 (clamp_binary32 res) = Some (out ! i)" by blast
      have "res \<noteq> NaN" using float_times_NaN[OF res(1)] nn[OF i] by simp
      from clamp_binary32_range[OF this] obtain c where
        c: "clamp_binary32 res = Finite c" "- 32768 \<le> c" "c \<le> 32767" by blast
      from int16_of_binary32_range[OF c(2,3)] res(2) c(1)
      have o: "out ! i = word_of_int (truncate c)" "sint (out ! i) = truncate c"
        by simp_all
      have tb: "- 32768 \<le> truncate c \<and> truncate c \<le> 32767"
        using c(2,3) by (rule truncate_bounds)
      have c1: "sint (out ! i) = 32767" if s: "samples ! i = Finite 1.5"
      proof -
        have b: "is_binary32 (1.5 * 32767)"
          using is_binary32_dyadic[of 98301 "- 1"] by (simp add: power_int_minus)
        from float_times_exact[OF res(1)[unfolded s] b] have "res = Finite (1.5 * 32767)" by simp
        with c(1) have "c = 32767"
          by (simp add: clamp_binary32_def float_greater_def)
        then show ?thesis using o(2) by (simp add: truncate_def)
      qed
      have c2: "sint (out ! i) = - 32768" if s: "samples ! i = Finite (- 2.0)"
      proof -
        have b: "is_binary32 (- 2.0 * 32767)"
          using is_binary32_dyadic[of "- 65534" 0] by simp
        from float_times_exact[OF res(1)[unfolded s] b] have "res = Finite (- 2.0 * 32767)" by simp
        with c(1) have "c = - 32768"
          by (simp add: clamp_binary32_def float_greater_def float_less_def)
        then show ?thesis using o(2) by (simp add: truncate_def)
      qed
      have c3: "sint (out ! i) = 0" if s: "samples ! i = Finite 0.0"
      proof -
        have b: "is_binary32 (0.0 * 32767)"
          using is_binary32_dyadic[of 0 0] by simp
        from float_times_exact[OF res(1)[unfolded s] b] have "res = Finite (0.0 * 32767)" by simp
        with c(1) have "c = 0"
          by (simp add: clamp_binary32_def float_greater_def float_less_def)
        then show ?thesis using o(2) by (simp add: truncate_def)
      qed
      have "\<exists>res c. float_times (samples ! i) GAIN res \<and>
                  clamp_binary32 res = Finite c \<and> - 32768 \<le> c \<and> c \<le> 32767 \<and>
                  int16_of_binary32 (Finite c) = Some (out ! i) \<and>
                  sint (out ! i) = truncate c"
        using res c o by auto
      then show ?thesis using o(2) tb c1 c2 c3 by simp
    qed
    show ?thesis using sp(1,3) per by blast
  qed
  have g: "GAIN = 32767" by (simp add: GAIN_def)
  from g ex all show ?thesis by blast
qed

theorem convert_samples_binary32_saturates_witness:
  "5 \<le> length [Finite 1.5, Finite (- 2.0), Finite 0.0, Finite (4096125 / 134217728), MInf] \<and>
   5 \<le> length [7, 7, 7, 7, 7, 7 :: 16 word] \<and>
   (\<exists>out. convert_samples_binary32 [7, 7, 7, 7, 7, 7]
             [Finite 1.5, Finite (- 2.0), Finite 0.0, Finite (4096125 / 134217728), MInf] 5 out \<and>
      sint (out ! 0) = 32767 \<and> sint (out ! 1) = - 32768 \<and> sint (out ! 2) = 0 \<and>
      sint (out ! 3) = 1000 \<and> sint (out ! 4) = - 32768 \<and> out ! 5 = 7)"
proof -
  define s where "s = [Finite 1.5, Finite (- 2.0), Finite 0.0, Finite (4096125 / 134217728), MInf]"
  define b :: "16 word list" where "b = [7, 7, 7, 7, 7, 7]"
  have n: "s ! 0 = Finite 1.5" "s ! 1 = Finite (- 2.0)" "s ! 2 = Finite 0.0"
    "s ! 3 = Finite (4096125 / 134217728)" "s ! 4 = MInf"
    by (simp_all add: s_def)
  have h1: "5 \<le> length s" by (simp add: s_def)
  have h2: "5 \<le> length b" by (simp add: b_def)
  have h3: "\<forall>i. i < 5 \<longrightarrow> s ! i \<noteq> NaN"
    by (simp add: s_def less_Suc_eq eval_nat_numeral)
  note t = convert_samples_binary32_saturates [OF h1 h2 h3]
  from t obtain out where out: "convert_samples_binary32 b s 5 out" by blast
  from t out have p: "\<forall>i. i < 5 \<longrightarrow>
               (\<exists>res c. float_times (s ! i) GAIN res \<and>
                  clamp_binary32 res = Finite c \<and> - 32768 \<le> c \<and> c \<le> 32767 \<and>
                  int16_of_binary32 (Finite c) = Some (out ! i) \<and>
                  sint (out ! i) = truncate c) \<and>
               - 32768 \<le> sint (out ! i) \<and> sint (out ! i) \<le> 32767 \<and>
               (s ! i = Finite 1.5 \<longrightarrow> sint (out ! i) = 32767) \<and>
               (s ! i = Finite (- 2.0) \<longrightarrow> sint (out ! i) = - 32768) \<and>
               (s ! i = Finite 0.0 \<longrightarrow> sint (out ! i) = 0)"
    and q: "\<forall>i. 5 \<le> i \<longrightarrow> out ! i = b ! i"
    by blast+
  from p n(1) have o0: "sint (out ! 0) = 32767" by simp
  from p n(2) have o1: "sint (out ! 1) = - 32768" by simp
  from p n(3) have o2: "sint (out ! 2) = 0" by simp
  have "(3::nat) < 5" by simp
  with p have "\<exists>res c. float_times (s ! 3) GAIN res \<and>
                  clamp_binary32 res = Finite c \<and> - 32768 \<le> c \<and> c \<le> 32767 \<and>
                  int16_of_binary32 (Finite c) = Some (out ! 3) \<and>
                  sint (out ! 3) = truncate c" by blast
  then obtain res c where r3: "float_times (s ! 3) GAIN res" "clamp_binary32 res = Finite c"
    "sint (out ! 3) = truncate c" by blast
  from float_times_1000[OF r3(1)[unfolded n]] r3(2) have "c = 1000"
    by (simp add: clamp_binary32_def float_greater_def float_less_def)
  with r3(3) have o3: "sint (out ! 3) = 1000" by (simp add: truncate_def)
  have "(4::nat) < 5" by simp
  with p have "\<exists>res c. float_times (s ! 4) GAIN res \<and>
                  clamp_binary32 res = Finite c \<and> - 32768 \<le> c \<and> c \<le> 32767 \<and>
                  int16_of_binary32 (Finite c) = Some (out ! 4) \<and>
                  sint (out ! 4) = truncate c" by blast
  then obtain res' c' where r4: "float_times (s ! 4) GAIN res'" "clamp_binary32 res' = Finite c'"
    "sint (out ! 4) = truncate c'" by blast
  from r4(1) have "res' = MInf" unfolding n by (simp add: float_times_def GAIN_def)
  with r4(2) have "c' = - 32768"
    by (simp add: clamp_binary32_def float_greater_def float_less_def)
  with r4(3) have o4: "sint (out ! 4) = - 32768" by (simp add: truncate_def)
  from q have o5: "out ! 5 = 7" by (simp add: b_def)
  from h1 h2 out o0 o1 o2 o3 o4 o5 show ?thesis unfolding s_def b_def by blast
qed

section \<open>An upper bound of \<open>pi\<close>\<close>

lemma cos_upper_20:
  fixes x :: real
  assumes "0 < x"
  shows "cos x \<le> (\<Sum>m<20. cos_coeff m * x ^ m) + x ^ 20 / fact 20"
proof -
  from Maclaurin_cos_expansion2[OF assms, of 20]
  obtain t where t: "cos x = (\<Sum>m<20. cos_coeff m * x ^ m) + (cos (t + 1/2 * real 20 * pi) / fact 20) * x ^ 20"
    by auto
  have "cos (t + 1/2 * real 20 * pi) \<le> 1" by simp
  then have "cos (t + 1/2 * real 20 * pi) / fact 20 \<le> 1 / fact 20"
    by (intro divide_right_mono) simp_all
  then have "(cos (t + 1/2 * real 20 * pi) / fact 20) * x ^ 20 \<le> (1 / fact 20) * x ^ 20"
    using assms by (intro mult_right_mono) simp_all
  with t show ?thesis by simp
qed

lemma sum_20:
  fixes f :: "nat \<Rightarrow> real"
  shows "sum f {..<20} = f 0 + f 1 + f 2 + f 3 + f 4 + f 5 + f 6 + f 7 + f 8 + f 9 + f 10 + f 11
     + f 12 + f 13 + f 14 + f 15 + f 16 + f 17 + f 18 + f 19"
  by (simp add: eval_nat_numeral)

lemma cos_sum_20:
  fixes x :: real
  shows "(\<Sum>m<20. cos_coeff m * x ^ m) =
     1 - x^2 / 2 + x^4 / 24 - x^6 / 720 + x^8 / 40320 - x^10 / 3628800 + x^12 / 479001600 - x^14 / 87178291200 + x^16 / 20922789888000 - x^18 / 6402373705728000"
  unfolding sum_20 by (simp add: cos_coeff_def fact_numeral)

lemma cos_taylor_20_scaled:
  fixes t1 :: real
  shows "2432902008176640000 *
      (1 - t1 / 2 + t2 / 24 - t3 / 720 + t4 / 40320 - t5 / 3628800 + t6 / 479001600 - t7 / 87178291200 + t8 / 20922789888000 - t9 / 6402373705728000 + t10 / 2432902008176640000) * K =
     2432902008176640000 * K - 1216451004088320000 * (t1 * K) + 101370917007360000 * (t2 * K) - 3379030566912000 * (t3 * K) + 60339831552000 * (t4 * K) - 670442572800 * (t5 * K) + 5079110400 * (t6 * K) - 27907200 * (t7 * K) + 116280 * (t8 * K) - 380 * (t9 * K) + t10 * K"
  by (simp add: algebra_simps)

lemma cos_taylor_20_cleared:
  fixes A B :: real
  assumes "B \<noteq> 0"
  shows "2432902008176640000 *
      (1 - (A / B)^2 / 2 + (A / B)^4 / 24 - (A / B)^6 / 720 + (A / B)^8 / 40320 - (A / B)^10 / 3628800 + (A / B)^12 / 479001600 - (A / B)^14 / 87178291200 + (A / B)^16 / 20922789888000 - (A / B)^18 / 6402373705728000 + (A / B)^20 / 2432902008176640000) * B^20 =
     2432902008176640000 * B^20 - 1216451004088320000 * (A^2 * B^18) + 101370917007360000 * (A^4 * B^16) - 3379030566912000 * (A^6 * B^14) + 60339831552000 * (A^8 * B^12) - 670442572800 * (A^10 * B^10) + 5079110400 * (A^12 * B^8) - 27907200 * (A^14 * B^6) + 116280 * (A^16 * B^4) - 380 * (A^18 * B^2) + A^20"
proof -
  have p: "(A / B)^2 * B^20 = A^2 * B^18" "(A / B)^4 * B^20 = A^4 * B^16" "(A / B)^6 * B^20 = A^6 * B^14" "(A / B)^8 * B^20 = A^8 * B^12" "(A / B)^10 * B^20 = A^10 * B^10" "(A / B)^12 * B^20 = A^12 * B^8" "(A / B)^14 * B^20 = A^14 * B^6" "(A / B)^16 * B^20 = A^16 * B^4" "(A / B)^18 * B^20 = A^18 * B^2" "(A / B)^20 * B^20 = A^20"
    using assms by (simp_all add: field_simps flip: power_add)
  show ?thesis unfolding cos_taylor_20_scaled p ..
qed

lemma cos_taylor_20_negative_int:
  "2432902008176640000 * 1000000000^20 - 1216451004088320000 * (1570796327^2 * 1000000000^18) + 101370917007360000 * (1570796327^4 * 1000000000^16) - 3379030566912000 * (1570796327^6 * 1000000000^14) + 60339831552000 * (1570796327^8 * 1000000000^12) - 670442572800 * (1570796327^10 * 1000000000^10) + 5079110400 * (1570796327^12 * 1000000000^8) - 27907200 * (1570796327^14 * 1000000000^6) + 116280 * (1570796327^16 * 1000000000^4) - 380 * (1570796327^18 * 1000000000^2) + 1570796327^20 < (0::int)"
  by simp

lemma cos_taylor_20_negative:
  "1 - (1570796327 / 1000000000)^2 / 2 + (1570796327 / 1000000000)^4 / 24 - (1570796327 / 1000000000)^6 / 720 + (1570796327 / 1000000000)^8 / 40320 - (1570796327 / 1000000000)^10 / 3628800 + (1570796327 / 1000000000)^12 / 479001600 - (1570796327 / 1000000000)^14 / 87178291200 + (1570796327 / 1000000000)^16 / 20922789888000 - (1570796327 / 1000000000)^18 / 6402373705728000 + (1570796327 / 1000000000)^20 / 2432902008176640000 < (0::real)"
  (is "?E < 0")
proof -
  have "2432902008176640000 * ?E * 1000000000^20 =
     of_int (2432902008176640000 * 1000000000^20 - 1216451004088320000 * (1570796327^2 * 1000000000^18) + 101370917007360000 * (1570796327^4 * 1000000000^16) - 3379030566912000 * (1570796327^6 * 1000000000^14) + 60339831552000 * (1570796327^8 * 1000000000^12) - 670442572800 * (1570796327^10 * 1000000000^10) + 5079110400 * (1570796327^12 * 1000000000^8) - 27907200 * (1570796327^14 * 1000000000^6) + 116280 * (1570796327^16 * 1000000000^4) - 380 * (1570796327^18 * 1000000000^2) + 1570796327^20)"
    by (subst cos_taylor_20_cleared) simp_all
  also have "\<dots> < 0"
    using cos_taylor_20_negative_int by (simp only: of_int_less_0_iff)
  finally have "2432902008176640000 * ?E * 1000000000^20 < 0" .
  then show ?thesis by (simp add: mult_less_0_iff)
qed

lemma pi_upper: "pi < (3141592654 :: real) / 1000000000"
proof -
  define x :: real where "x = 1570796327 / 1000000000"
  have pos: "0 < x" by (simp add: x_def)
  have "(\<Sum>m<20. cos_coeff m * x ^ m) + x ^ 20 / fact 20 =
        1 - x^2 / 2 + x^4 / 24 - x^6 / 720 + x^8 / 40320 - x^10 / 3628800 + x^12 / 479001600 - x^14 / 87178291200 + x^16 / 20922789888000 - x^18 / 6402373705728000 + x^20 / 2432902008176640000"
    unfolding cos_sum_20 by (simp add: fact_numeral)
  moreover have "1 - x^2 / 2 + x^4 / 24 - x^6 / 720 + x^8 / 40320 - x^10 / 3628800 + x^12 / 479001600 - x^14 / 87178291200 + x^16 / 20922789888000 - x^18 / 6402373705728000 + x^20 / 2432902008176640000 < 0"
    unfolding x_def by (rule cos_taylor_20_negative)
  ultimately have "(\<Sum>m<20. cos_coeff m * x ^ m) + x ^ 20 / fact 20 < 0" by (simp only:)
  with cos_upper_20[OF pos] have c: "cos x < 0" by linarith
  have "pi / 2 < x"
  proof (rule ccontr)
    assume "\<not> pi / 2 < x"
    then have "x \<le> pi / 2" by simp
    then have "0 \<le> cos x" using pos by (intro cos_ge_zero) simp_all
    with c show False by simp
  qed
  moreover have "(3141592654 :: real) / 1000000000 = 2 * x" by (simp add: x_def)
  ultimately show ?thesis by linarith
qed

section \<open>Rounding errors\<close>

lemma is_binary64_dyadic_le:
  fixes N :: int
  assumes "\<bar>N\<bar> \<le> 2 ^ 53" "- 1074 \<le> e" "e \<le> 970"
  shows "is_binary64 (of_int N * 2 powi e)"
proof (cases "\<bar>N\<bar> < 2 ^ 53")
  case True
  then show ?thesis using assms by (intro is_binary64_dyadic) simp_all
next
  case False
  with assms(1) have "\<bar>N\<bar> = 2 ^ 53" by simp
  then have N: "N = 2 ^ 53 \<or> N = - (2 ^ 53)" by linarith
  then have "real_of_int N * 2 powi e = of_int (N div 2) * 2 powi (e + 1)"
    by (auto simp: power_int_add)
  moreover have "\<bar>N div 2\<bar> < 2 ^ 53" using N by auto
  ultimately show ?thesis using assms by (simp add: is_binary64_dyadic)
qed

lemma round_abs_le:
  fixes z :: real and B :: int
  assumes "\<bar>z\<bar> \<le> of_int B"
  shows "\<bar>round z\<bar> \<le> B"
proof -
  have "round z \<le> round (of_int B :: real)" using assms by (intro round_mono) linarith
  moreover have "round (- of_int B :: real) \<le> round z" using assms by (intro round_mono) linarith
  ultimately show ?thesis by (simp flip: of_int_minus)
qed

lemma nearest32_abs_error:
  assumes n: "nearest32 x r" and x: "\<bar>x\<bar> \<le> 2 ^ 24 * 2 powi e"
    and e: "- 149 \<le> e" "e \<le> 103"
  shows "\<bar>r - x\<bar> \<le> 2 powi e / 2"
proof -
  define u :: real where "u = 2 powi e"
  have u: "0 < u" by (simp add: u_def)
  define K where "K = round (x / u)"
  have "\<bar>x / u\<bar> \<le> 2 ^ 24" using x u by (simp add: u_def field_simps)
  then have "\<bar>x / u\<bar> \<le> real_of_int (2 ^ 24)" by simp
  then have K: "\<bar>K\<bar> \<le> 2 ^ 24" unfolding K_def by (rule round_abs_le)
  have g: "is_binary32 (of_int K * 2 powi e)"
    using K e by (rule is_binary32_dyadic_le)
  have "\<bar>of_int K - x / u\<bar> \<le> 1 / 2" unfolding K_def by (rule of_int_round_abs_le)
  then have "\<bar>of_int K - x / u\<bar> * u \<le> 1 / 2 * u" using u by (intro mult_right_mono) simp_all
  moreover have "\<bar>of_int K - x / u\<bar> * u = \<bar>of_int K * u - x\<bar>"
    using u by (simp add: abs_mult_pos[symmetric] field_simps flip: abs_mult)
  ultimately have "\<bar>of_int K * u - x\<bar> \<le> u / 2" by simp
  with nearest32_dist[OF n g] show ?thesis unfolding u_def by linarith
qed

lemma nearest64_dist:
  assumes "nearest64 x r" "is_binary64 g"
  shows "\<bar>r - x\<bar> \<le> \<bar>g - x\<bar>"
  using assms unfolding nearest64_def by blast

lemma nearest64_le:
  assumes "nearest64 x r" "is_binary64 u" "x \<le> u"
  shows "r \<le> u"
  using nearest64_dist[OF assms(1,2)] assms(3) by linarith

lemma nearest64_ge:
  assumes "nearest64 x r" "is_binary64 l" "l \<le> x"
  shows "l \<le> r"
  using nearest64_dist[OF assms(1,2)] assms(3) by linarith

lemma nearest64_abs_error:
  assumes n: "nearest64 x r" and x: "\<bar>x\<bar> \<le> 2 ^ 53 * 2 powi e"
    and e: "- 1074 \<le> e" "e \<le> 970"
  shows "\<bar>r - x\<bar> \<le> 2 powi e / 2"
proof -
  define u :: real where "u = 2 powi e"
  have u: "0 < u" by (simp add: u_def)
  define K where "K = round (x / u)"
  have "\<bar>x / u\<bar> \<le> 2 ^ 53" using x u by (simp add: u_def field_simps)
  then have "\<bar>x / u\<bar> \<le> real_of_int (2 ^ 53)" by simp
  then have K: "\<bar>K\<bar> \<le> 2 ^ 53" unfolding K_def by (rule round_abs_le)
  have g: "is_binary64 (of_int K * 2 powi e)"
    using K e by (rule is_binary64_dyadic_le)
  have "\<bar>of_int K - x / u\<bar> \<le> 1 / 2" unfolding K_def by (rule of_int_round_abs_le)
  then have "\<bar>of_int K - x / u\<bar> * u \<le> 1 / 2 * u" using u by (intro mult_right_mono) simp_all
  moreover have "\<bar>of_int K - x / u\<bar> * u = \<bar>of_int K * u - x\<bar>"
    using u by (simp add: abs_mult_pos[symmetric] field_simps flip: abs_mult)
  ultimately have "\<bar>of_int K * u - x\<bar> \<le> u / 2" by simp
  with nearest64_dist[OF n g] show ?thesis unfolding u_def by linarith
qed

section \<open>Properties of the discriminator in binary32\<close>

lemma M_PI_double_binary64: "is_binary64 M_PI_double"
  unfolding M_PI_double_def
  using is_binary64_dyadic[of 884279719003555 "- 48"] by (simp add: power_int_minus field_simps)

lemma M_PI_double_near_pi: "pi - M_PI_double \<le> 1 / 2 ^ 31"
  using pi_upper by (simp add: M_PI_double_def field_simps)

lemma atan2_double_total: "\<exists>a. atan2_double y x a"
proof -
  define t where "t = atan2 y x"
  define c where "c = max (- M_PI_double) (min M_PI_double t)"
  have t: "- pi < t" "t \<le> pi" using atan2_range[of y x] by (simp_all add: t_def)
  have M: "0 < M_PI_double" using M_PI_double_between(3) by linarith
  have c: "- M_PI_double \<le> c" "c \<le> M_PI_double" using M by (simp_all add: c_def)
  have ct: "\<bar>c - t\<bar> \<le> 1 / 2 ^ 31"
    using t M M_PI_double_near_pi unfolding c_def max_def min_def
    by (simp split: if_splits)
  from nearest64_exists obtain a where a: "nearest64 c a" by blast
  have b: "is_binary64 a" using a unfolding nearest64_def by blast
  have "a \<le> M_PI_double" using a M_PI_double_binary64 c(2) by (rule nearest64_le)
  moreover have "- M_PI_double \<le> a"
    using a is_binary64_minus[OF M_PI_double_binary64] c(1) by (rule nearest64_ge)
  ultimately have r: "\<bar>a\<bar> \<le> M_PI_double" by linarith
  have "\<bar>c\<bar> \<le> 2 ^ 53 * 2 powi (- 51)"
    using c M_PI_double_between(2) by (simp add: power_int_minus field_simps)
  from nearest64_abs_error[OF a this] have "\<bar>a - c\<bar> \<le> 2 powi (- 51) / 2" by simp
  then have "\<bar>a - c\<bar> \<le> 1 / 2 ^ 31" by (simp add: power_int_minus field_simps)
  moreover have "(1::real) / 2 ^ 31 + 1 / 2 ^ 31 = 1 / 2 ^ 30" by simp
  ultimately have "\<bar>a - t\<bar> \<le> 1 / 2 ^ 30" using ct by linarith
  with b r show ?thesis unfolding atan2_double_def t_def by blast
qed

lemma get_instant_freq_float_total: "\<exists>r. get_instant_freq_float i1 q1 i2 q2 r"
  using atan2_double_total[of q1 i1] atan2_double_total[of q2 i2]
    get_instant_freq_binary32_total
  unfolding get_instant_freq_float_def by blast

lemma get_freq_loop_binary32_spec:
  assumes "get_freq_loop_binary32 f is qs len i out"
  shows "length out = length f \<and>
         (\<forall>k. i \<le> k \<and> k < len - 1 \<longrightarrow>
            get_instant_freq_float (is ! k) (qs ! k) (is ! (k + 1)) (qs ! (k + 1)) (out ! k)) \<and>
         (\<forall>k. k < i \<or> len - 1 \<le> k \<longrightarrow> out ! k = f ! k)"
  using assms
proof (induction rule: get_freq_loop_binary32.induct)
  case (get_freq_loop_binary32_exit i len freq_samples i_samples q_samples)
  then show ?case by auto
next
  case (get_freq_loop_binary32_body i len i_samples i1 q_samples q1 i2 q2 r freq_samples
      freq_samples' out)
  from get_freq_loop_binary32_body.hyps(2,3,4,5)
  have v: "i1 = i_samples ! i" "q1 = q_samples ! i" "i2 = i_samples ! (i + 1)"
    "q2 = q_samples ! (i + 1)"
    by (simp_all add: load_def split: if_splits)
  from get_freq_loop_binary32_body.hyps(7)
  have b: "i < length freq_samples" "freq_samples' = freq_samples[i := r]"
    by (simp_all add: store_def split: if_splits)
  from get_freq_loop_binary32_body.IH have ih:
    "length out = length freq_samples'"
    "\<And>k. i + 1 \<le> k \<Longrightarrow> k < len - 1 \<Longrightarrow>
        get_instant_freq_float (i_samples ! k) (q_samples ! k) (i_samples ! (k + 1))
          (q_samples ! (k + 1)) (out ! k)"
    "\<And>k. k < i + 1 \<or> len - 1 \<le> k \<Longrightarrow> out ! k = freq_samples' ! k"
    by blast+
  have oi: "out ! i = r" using ih(3)[of i] b by simp
  have a: "get_instant_freq_float (i_samples ! k) (q_samples ! k) (i_samples ! (k + 1))
          (q_samples ! (k + 1)) (out ! k)"
    if "i \<le> k" "k < len - 1" for k
  proof (cases "k = i")
    case True
    then show ?thesis
      using get_freq_loop_binary32_body.hyps(6) v oi by simp
  next
    case False
    with that have "i + 1 \<le> k" by simp
    from ih(2)[OF this that(2)] show ?thesis .
  qed
  have c: "out ! k = freq_samples ! k" if "k < i \<or> len - 1 \<le> k" for k
    using ih(3)[of k] that b get_freq_loop_binary32_body.hyps(1) by auto
  show ?case using ih(1) b(2) a c by simp
qed

lemma get_freq_loop_binary32_total:
  assumes "len \<le> length is" "len \<le> length qs" "len - 1 \<le> length f"
  shows "\<exists>out. get_freq_loop_binary32 f is qs len i out"
  using assms(3)
proof (induction "len - 1 - i" arbitrary: i f)
  case 0
  then have "\<not> i < len - 1" by simp
  then show ?case using get_freq_loop_binary32_exit by blast
next
  case (Suc m)
  from Suc.hyps(2) have lt: "i < len - 1" by simp
  have bounds: "i < length is" "i < length qs" "i + 1 < length is" "i + 1 < length qs"
    "i < length f"
    using lt assms(1,2) Suc.prems by arith+
  from get_instant_freq_float_total obtain r where
    r: "get_instant_freq_float (is ! i) (qs ! i) (is ! (i + 1)) (qs ! (i + 1)) r" by blast
  have "\<exists>out. get_freq_loop_binary32 (f[i := r]) is qs len (i + 1) out"
    using Suc.hyps(2) Suc.prems by (intro Suc.hyps(1)) simp_all
  then obtain out where out: "get_freq_loop_binary32 (f[i := r]) is qs len (i + 1) out" by blast
  have l: "load is i = Some (is ! i)" "load qs i = Some (qs ! i)"
    "load is (i + 1) = Some (is ! (i + 1))" "load qs (i + 1) = Some (qs ! (i + 1))"
    using bounds by (simp_all add: load_def)
  have s: "store f i r = Some (f[i := r])" using bounds by (simp add: store_def)
  from get_freq_loop_binary32_body[OF lt l r s out] show ?case by blast
qed

lemma convert_value_binary32: "is_binary32 (convert_value v)"
proof -
  have u: "0 \<le> uint v" "uint v < 256" using uint_lt2p[of v] by simp_all
  have "\<bar>2 * uint v - 255\<bar> < 16777216" using u by arith
  then have "\<bar>2 * uint v - 255\<bar> < 2 ^ 24" by simp
  then have b: "is_binary32 (of_int (2 * uint v - 255) * 2 powi (- 1))"
    by (rule is_binary32_dyadic) simp_all
  have "real (unat v) = of_int (uint v)" by simp
  then have "convert_value v = of_int (2 * uint v - 255) * 2 powi (- 1)"
    unfolding convert_value_def by (simp add: power_int_minus field_simps)
  with b show ?thesis by (simp only:)
qed

lemma M_PI_double_pi: "\<bar>M_PI_double - pi\<bar> \<le> 1 / 2 ^ 26"
proof -
  have "M_PI_double - pi \<le> 1 / 2 ^ 26"
    using pi_lower by (simp add: M_PI_double_def field_simps)
  moreover have "1 / 2 ^ 31 \<le> (1::real) / 2 ^ 26" by simp
  ultimately show ?thesis using M_PI_double_near_pi by linarith
qed

lemma phase_error:
  assumes a: "atan2_double y x a" and p: "nearest32 a phase"
  shows "\<bar>phase - atan2 y x\<bar> \<le> 1 / 2 ^ 23 + 1 / 2 ^ 30" "\<bar>phase\<bar> \<le> 13176795 / 2 ^ 22"
proof -
  from a have b: "\<bar>a\<bar> \<le> M_PI_double" "\<bar>a - atan2 y x\<bar> \<le> 1 / 2 ^ 30"
    unfolding atan2_double_def by simp_all
  have "\<bar>a\<bar> \<le> 2 ^ 24 * 2 powi (- 22)"
    using b(1) M_PI_double_between(2) by (simp add: power_int_minus field_simps)
  from nearest32_abs_error[OF p this] have "\<bar>phase - a\<bar> \<le> 2 powi (- 22) / 2" by simp
  then have "\<bar>phase - a\<bar> \<le> 1 / 2 ^ 23" by (simp add: power_int_minus field_simps)
  with b(2) show "\<bar>phase - atan2 y x\<bar> \<le> 1 / 2 ^ 23 + 1 / 2 ^ 30" by linarith
  show "\<bar>phase\<bar> \<le> 13176795 / 2 ^ 22" using b(1) p by (rule phase_bound)
qed

lemma difference_error:
  assumes p1: "\<bar>phase1 - t1\<bar> \<le> 1 / 2 ^ 23 + 1 / 2 ^ 30" "\<bar>phase1\<bar> \<le> 13176795 / 2 ^ 22"
    and p2: "\<bar>phase2 - t2\<bar> \<le> 1 / 2 ^ 23 + 1 / 2 ^ 30" "\<bar>phase2\<bar> \<le> 13176795 / 2 ^ 22"
    and d: "nearest32 (phase2 - phase1) d"
  shows "\<bar>d - (t2 - t1)\<bar> \<le> 1 / 2 ^ 21 + 1 / 2 ^ 29"
proof -
  have "(13176795::real) / 2 ^ 22 + 13176795 / 2 ^ 22 = 13176795 / 2 ^ 21" by simp
  then have "\<bar>phase2 - phase1\<bar> \<le> 13176795 / 2 ^ 21"
    using p1(2) p2(2) by linarith
  then have "\<bar>phase2 - phase1\<bar> \<le> 2 ^ 24 * 2 powi (- 21)"
    by (simp add: power_int_minus field_simps)
  from nearest32_abs_error[OF d this] have "\<bar>d - (phase2 - phase1)\<bar> \<le> 2 powi (- 21) / 2" by simp
  then have "\<bar>d - (phase2 - phase1)\<bar> \<le> 1 / 2 ^ 22" by (simp add: power_int_minus field_simps)
  moreover have "(1::real) / 2 ^ 22 + (1 / 2 ^ 23 + 1 / 2 ^ 30) + (1 / 2 ^ 23 + 1 / 2 ^ 30) =
    1 / 2 ^ 21 + 1 / 2 ^ 29" by simp
  ultimately show ?thesis using p1(1) p2(1) by linarith
qed

lemma adjust_error:
  assumes x: "\<bar>x\<bar> \<le> 13176795 / 2 ^ 22" and y: "nearest64 x y" and r: "nearest32 y r"
  shows "\<bar>r - x\<bar> \<le> 1 / 2 ^ 23 + 1 / 2 ^ 52"
proof -
  have "\<bar>x\<bar> \<le> 2 ^ 53 * 2 powi (- 51)"
    using x by (simp add: power_int_minus field_simps)
  from nearest64_abs_error[OF y this] have "\<bar>y - x\<bar> \<le> 2 powi (- 51) / 2" by simp
  then have yx: "\<bar>y - x\<bar> \<le> 1 / 2 ^ 52" by (simp add: power_int_minus field_simps)
  have b64: "is_binary64 (13176795 / 2 ^ 22)"
    using is_binary64_dyadic[of 13176795 "- 22"] by (simp add: power_int_minus field_simps)
  have xb: "x \<le> 13176795 / 2 ^ 22" "- (13176795 / 2 ^ 22) \<le> x" using x by linarith+
  have "y \<le> 13176795 / 2 ^ 22" using y b64 xb(1) by (rule nearest64_le)
  moreover have "- (13176795 / 2 ^ 22) \<le> y"
    using y is_binary64_minus[OF b64] xb(2) by (rule nearest64_ge)
  ultimately have "\<bar>y\<bar> \<le> 2 ^ 24 * 2 powi (- 22)"
    by (simp add: power_int_minus field_simps)
  from nearest32_abs_error[OF r this] have "\<bar>r - y\<bar> \<le> 2 powi (- 22) / 2" by simp
  then have "\<bar>r - y\<bar> \<le> 1 / 2 ^ 23" by (simp add: power_int_minus field_simps)
  with yx show ?thesis by linarith
qed

lemma get_instant_freq_float_spec:
  assumes run: "get_instant_freq_float i1 q1 i2 q2 r"
  shows "\<exists>a1 a2 phase1 phase2 d.
           atan2_double q1 i1 a1 \<and> atan2_double q2 i2 a2 \<and>
           nearest32 a1 phase1 \<and> nearest32 a2 phase2 \<and> nearest32 (phase2 - phase1) d \<and>
           \<bar>d - (atan2 q2 i2 - atan2 q1 i1)\<bar> \<le> 1 / 2 ^ 20 \<and>
           (if d > M_PI_double then
              (\<exists>y. nearest64 (d - 2 * M_PI_double) y \<and> nearest32 y r) \<and>
              \<bar>r - (atan2 q2 i2 - atan2 q1 i1 - 2 * pi)\<bar> \<le> 1 / 2 ^ 20
            else if d < - M_PI_double then
              (\<exists>y. nearest64 (d + 2 * M_PI_double) y \<and> nearest32 y r) \<and>
              \<bar>r - (atan2 q2 i2 - atan2 q1 i1 + 2 * pi)\<bar> \<le> 1 / 2 ^ 20
            else r = d) \<and>
           - pi < r \<and> r < pi"
proof -
  define delta where "delta = atan2 q2 i2 - atan2 q1 i1"
  from run obtain a1 a2 where a: "atan2_double q1 i1 a1" "atan2_double q2 i2 a2"
    and g: "get_instant_freq_binary32 a1 a2 r"
    unfolding get_instant_freq_float_def by blast
  from a have ab: "\<bar>a1\<bar> \<le> M_PI_double" "\<bar>a2\<bar> \<le> M_PI_double"
    unfolding atan2_double_def by simp_all
  from get_instant_freq_binary32_range[OF ab g] have range: "- pi < r" "r < pi" by simp_all
  from g obtain phase1 phase2 d where
    p: "nearest32 a1 phase1" "nearest32 a2 phase2" "nearest32 (phase2 - phase1) d"
    and br: "if d > M_PI_double then
           (\<exists>y. nearest64 (d - 2 * M_PI_double) y \<and> nearest32 y r)
         else if d < - M_PI_double then
           (\<exists>y. nearest64 (d + 2 * M_PI_double) y \<and> nearest32 y r)
         else r = d"
    unfolding get_instant_freq_binary32_def by blast
  note e1 = phase_error[OF a(1) p(1)] and e2 = phase_error[OF a(2) p(2)]
  from difference_error[OF e1 e2 p(3)]
  have de: "\<bar>d - delta\<bar> \<le> 1 / 2 ^ 21 + 1 / 2 ^ 29" unfolding delta_def .
  have num: "(1::real) / 2 ^ 21 + 1 / 2 ^ 29 \<le> 1 / 2 ^ 20"
    "(1::real) / 2 ^ 23 + 1 / 2 ^ 52 + (1 / 2 ^ 21 + 1 / 2 ^ 29) + 2 * (1 / 2 ^ 26) \<le> 1 / 2 ^ 20"
    by simp_all
  from de num(1) have d20: "\<bar>d - delta\<bar> \<le> 1 / 2 ^ 20" by linarith
  have db: "\<bar>d\<bar> \<le> 13176795 / 2 ^ 21"
    using e1(2) e2(2) p(3) by (rule difference_bound)
  have M: "13176794 / 2 ^ 22 < M_PI_double" "M_PI_double < 13176795 / 2 ^ 22"
    by (rule M_PI_double_between)+
  have two: "(13176795::real) / 2 ^ 21 = 2 * (13176795 / 2 ^ 22)" by simp
  have down: "\<bar>r - (delta - 2 * pi)\<bar> \<le> 1 / 2 ^ 20"
    if c: "d > M_PI_double" and y: "nearest64 (d - 2 * M_PI_double) y" "nearest32 y r" for y
  proof -
    have "\<bar>d - 2 * M_PI_double\<bar> \<le> 13176795 / 2 ^ 22"
      using c db M unfolding two by linarith
    from adjust_error[OF this y]
    have "\<bar>r - (d - 2 * M_PI_double)\<bar> \<le> 1 / 2 ^ 23 + 1 / 2 ^ 52" .
    with de M_PI_double_pi num(2) show ?thesis by linarith
  qed
  have up: "\<bar>r - (delta + 2 * pi)\<bar> \<le> 1 / 2 ^ 20"
    if c: "d < - M_PI_double" and y: "nearest64 (d + 2 * M_PI_double) y" "nearest32 y r" for y
  proof -
    have "\<bar>d + 2 * M_PI_double\<bar> \<le> 13176795 / 2 ^ 22"
      using c db M unfolding two by linarith
    from adjust_error[OF this y]
    have "\<bar>r - (d + 2 * M_PI_double)\<bar> \<le> 1 / 2 ^ 23 + 1 / 2 ^ 52" .
    with de M_PI_double_pi num(2) show ?thesis by linarith
  qed
  have branch: "if d > M_PI_double then
              (\<exists>y. nearest64 (d - 2 * M_PI_double) y \<and> nearest32 y r) \<and>
              \<bar>r - (delta - 2 * pi)\<bar> \<le> 1 / 2 ^ 20
            else if d < - M_PI_double then
              (\<exists>y. nearest64 (d + 2 * M_PI_double) y \<and> nearest32 y r) \<and>
              \<bar>r - (delta + 2 * pi)\<bar> \<le> 1 / 2 ^ 20
            else r = d"
  proof (cases "d > M_PI_double")
    case True
    with br obtain y where "nearest64 (d - 2 * M_PI_double) y" "nearest32 y r" by auto
    with True down show ?thesis by auto
  next
    case False
    show ?thesis
    proof (cases "d < - M_PI_double")
      case True
      with br False obtain y where "nearest64 (d + 2 * M_PI_double) y" "nearest32 y r" by auto
      with True False up show ?thesis by auto
    next
      case n: False
      with br False show ?thesis by simp
    qed
  qed
  show ?thesis
    using a p d20 branch range unfolding delta_def by blast
qed

lemma nearest32_unique_fraction:
  fixes N :: int
  assumes n: "nearest32 y r" and d: "\<bar>y - of_int N / 2 ^ k\<bar> < 1 / 2 ^ (k + 1)"
    and N: "2 ^ 23 < N" "N < 2 ^ 24" and k: "k \<le> 149"
  shows "r = of_int N / 2 ^ k"
proof -
  have p: "(2::real) powi (- int k) = 1 / 2 ^ k"
    by (simp add: power_int_minus field_simps)
  have "r = of_int N * 2 powi (- int k)"
    using n N
  proof (rule nearest32_unique)
    show "- 149 \<le> - int k" "- int k \<le> 104" using k by simp_all
    show "\<bar>y - of_int N * 2 powi (- int k)\<bar> < 2 powi (- int k) / 2"
      unfolding p using d by simp
  qed
  then show ?thesis unfolding p by simp
qed

text \<open>
  Two opposite points, the bytes \<open>128, 128\<close> and \<open>127, 127\<close>: the exact angles are \<open>pi / 4\<close>
  and \<open>- 3 pi / 4\<close> and their difference is \<open>- pi\<close>. The \<^verbatim>\<open>float\<close> difference is
  \<^verbatim>\<open>-0x1.921fb6p+1\<close>, below \<^verbatim>\<open>-M_PI\<close>, and the sample is \<^verbatim>\<open>0x1.921fb4p+1\<close>, about \<open>3.1415925\<close>.
\<close>

lemma opposite_points_sample:
  assumes run: "get_instant_freq_float (1/2) (1/2) (- (1/2)) (- (1/2)) r"
  shows "r = 13176794 / 2 ^ 22"
proof -
  from run obtain a1 a2 where a: "atan2_double (1/2) (1/2) a1" "atan2_double (- (1/2)) (- (1/2)) a2"
    and g: "get_instant_freq_binary32 a1 a2 r"
    unfolding get_instant_freq_float_def by blast
  from g obtain phase1 phase2 d where
    p: "nearest32 a1 phase1" "nearest32 a2 phase2" "nearest32 (phase2 - phase1) d"
    and br: "if d > M_PI_double then
           (\<exists>y. nearest64 (d - 2 * M_PI_double) y \<and> nearest32 y r)
         else if d < - M_PI_double then
           (\<exists>y. nearest64 (d + 2 * M_PI_double) y \<and> nearest32 y r)
         else r = d"
    unfolding get_instant_freq_binary32_def by blast
  from a have e: "\<bar>a1 - pi / 4\<bar> \<le> 1 / 2 ^ 30" "\<bar>a2 - - (3 * pi / 4)\<bar> \<le> 1 / 2 ^ 30"
    unfolding atan2_double_def by (simp_all add: atan2_quadrants)
  have b1: "314159264 / 400000000 - 1 / 2 ^ 30 < a1" "a1 < 3141592654 / 4000000000 + 1 / 2 ^ 30"
    using e(1) pi_lower pi_upper by linarith+
  have n1: "(13176795::real) / 2 ^ 24 - 1 / 2 ^ 25 < 314159264 / 400000000 - 1 / 2 ^ 30"
    "(3141592654::real) / 4000000000 + 1 / 2 ^ 30 < 13176795 / 2 ^ 24 + 1 / 2 ^ 25"
    by simp_all
  have "\<bar>a1 - 13176795 / 2 ^ 24\<bar> < 1 / 2 ^ 25"
    using b1 n1 by linarith
  then have "\<bar>a1 - of_int 13176795 / 2 ^ 24\<bar> < 1 / 2 ^ (24 + 1)" by simp
  with p(1) have p1: "phase1 = of_int 13176795 / 2 ^ 24"
    by (rule nearest32_unique_fraction) simp_all
  have b2: "3 * (314159264 / 400000000) - 1 / 2 ^ 30 < - a2"
    "- a2 < 3 * (3141592654 / 4000000000) + 1 / 2 ^ 30"
    using e(2) pi_lower pi_upper by linarith+
  have n2: "(9882596::real) / 2 ^ 22 - 1 / 2 ^ 23 < 3 * (314159264 / 400000000) - 1 / 2 ^ 30"
    "3 * ((3141592654::real) / 4000000000) + 1 / 2 ^ 30 < 9882596 / 2 ^ 22 + 1 / 2 ^ 23"
    by simp_all
  have "\<bar>- a2 - 9882596 / 2 ^ 22\<bar> < 1 / 2 ^ 23"
    using b2 n2 by linarith
  then have "\<bar>- a2 - of_int 9882596 / 2 ^ 22\<bar> < 1 / 2 ^ (22 + 1)" by simp
  with nearest32_minus[OF p(2)] have "- phase2 = of_int 9882596 / 2 ^ 22"
    by (rule nearest32_unique_fraction) simp_all
  then have p2: "phase2 = - (9882596 / 2 ^ 22)" by simp
  have "\<bar>- (phase2 - phase1) - of_int 13176795 / 2 ^ 22\<bar> < 1 / 2 ^ (22 + 1)"
    unfolding p1 p2 by simp
  with nearest32_minus[OF p(3)] have "- d = of_int 13176795 / 2 ^ 22"
    by (rule nearest32_unique_fraction) simp_all
  then have d: "d = - (13176795 / 2 ^ 22)" by simp
  have lt: "d < - M_PI_double" "\<not> d > M_PI_double"
    unfolding d using M_PI_double_between by simp_all
  with br obtain y where y: "nearest64 (d + 2 * M_PI_double) y" "nearest32 y r" by auto
  have s: "d + 2 * M_PI_double = of_int 442139847198115 * 2 powi (- 47)"
    unfolding d M_PI_double_def by (simp add: power_int_minus)
  have "is_binary64 (d + 2 * M_PI_double)"
    unfolding s by (rule is_binary64_dyadic) simp_all
  from nearest64_exact[OF y(1) this] have yv: "y = 442139847198115 / 2 ^ 47"
    unfolding s by (simp add: power_int_minus field_simps)
  have "\<bar>y - of_int 13176794 / 2 ^ 22\<bar> < 1 / 2 ^ (22 + 1)"
    unfolding yv by simp
  with y(2) have "r = of_int 13176794 / 2 ^ 22"
    by (rule nearest32_unique_fraction) simp_all
  then show ?thesis by simp
qed

text \<open>
  Claim C3. A buffer of \<open>2 * N\<close> raw bytes is split by \<open>demodulate\<close> into \<open>N\<close> pairs
  \<open>I k = buffer[2k] - 127.5\<close>, \<open>Q k = buffer[2k+1] - 127.5\<close>, exact in \<^verbatim>\<open>float\<close>, and
  \<open>get_freq_values\<close>, called with \<open>len = N\<close>, always returns and writes exactly the \<open>N - 1\<close>
  cells \<open>0 .. N-2\<close> of \<open>freq_samples\<close>, leaving the others as they were. For cell \<open>k\<close> it
  rounds the two angles that \<^verbatim>\<open>atan2\<close> returns to \<^verbatim>\<open>float\<close> and subtracts them in \<^verbatim>\<open>float\<close>;
  this difference \<open>d\<close> is within \<open>2^-20\<close> of
  \<open>delta k = atan2 (Q (k+1)) (I (k+1)) - atan2 (Q k) (I k)\<close>. The cell receives \<open>d\<close> less
  \<open>2 * M_PI\<close> when \<open>d > M_PI\<close>, \<open>d\<close> plus \<open>2 * M_PI\<close> when \<open>d < - M_PI\<close> (one adjustment,
  computed in \<^verbatim>\<open>double\<close> and rounded to \<^verbatim>\<open>float\<close>; the result is within \<open>2^-20\<close> of
  \<open>delta k - 2 pi\<close>, respectively \<open>delta k + 2 pi\<close>), and \<open>d\<close> itself otherwise.
\<close>

theorem discriminator_samples_binary32:
  fixes buffer :: "8 word list" and N :: nat
  defines "I \<equiv> \<lambda>k. convert_value (buffer ! (2 * k))"
    and "Q \<equiv> \<lambda>k. convert_value (buffer ! (2 * k + 1))"
  defines "delta \<equiv> \<lambda>k. atan2 (Q (k + 1)) (I (k + 1)) - atan2 (Q k) (I k)"
  assumes "length buffer = 2 * N" and "N - 1 \<le> length freq_samples"
  shows "demodulate_loop buffer (2 * N) (replicate N 0) (replicate N 0) 0 0 =
           Some (map I [0..<N], map Q [0..<N]) \<and>
         (\<forall>k. is_binary32 (I k) \<and> is_binary32 (Q k)) \<and>
         (\<exists>out. get_freq_values_binary32 freq_samples (map I [0..<N]) (map Q [0..<N]) N out) \<and>
         (\<forall>out. get_freq_values_binary32 freq_samples (map I [0..<N]) (map Q [0..<N]) N out \<longrightarrow>
            length out = length freq_samples \<and>
            (\<forall>k. N - 1 \<le> k \<longrightarrow> out ! k = freq_samples ! k) \<and>
            (\<forall>k. k < N - 1 \<longrightarrow>
               (\<exists>a1 a2 phase1 phase2 d.
                  atan2_double (Q k) (I k) a1 \<and> atan2_double (Q (k + 1)) (I (k + 1)) a2 \<and>
                  nearest32 a1 phase1 \<and> nearest32 a2 phase2 \<and>
                  nearest32 (phase2 - phase1) d \<and>
                  \<bar>d - delta k\<bar> \<le> 1 / 2 ^ 20 \<and>
                  (if d > M_PI_double then
                     (\<exists>y. nearest64 (d - 2 * M_PI_double) y \<and> nearest32 y (out ! k)) \<and>
                     \<bar>out ! k - (delta k - 2 * pi)\<bar> \<le> 1 / 2 ^ 20
                   else if d < - M_PI_double then
                     (\<exists>y. nearest64 (d + 2 * M_PI_double) y \<and> nearest32 y (out ! k)) \<and>
                     \<bar>out ! k - (delta k + 2 * pi)\<bar> \<le> 1 / 2 ^ 20
                   else out ! k = d))))"
proof -
  have a: "demodulate_loop buffer (2 * N) (replicate N 0) (replicate N 0) 0 0 =
           Some (map I [0..<N], map Q [0..<N])"
    using demodulate_loop_even[of "replicate N 0" N "replicate N 0" buffer 0] assms(4)
    by (simp add: I_def Q_def)
  have b: "\<forall>k. is_binary32 (I k) \<and> is_binary32 (Q k)"
    unfolding I_def Q_def using convert_value_binary32 by blast
  have ex: "\<exists>out. get_freq_values_binary32 freq_samples (map I [0..<N]) (map Q [0..<N]) N out"
    unfolding get_freq_values_binary32_def
    using assms(5) by (intro get_freq_loop_binary32_total) simp_all
  have all: "length out = length freq_samples \<and>
            (\<forall>k. N - 1 \<le> k \<longrightarrow> out ! k = freq_samples ! k) \<and>
            (\<forall>k. k < N - 1 \<longrightarrow>
               (\<exists>a1 a2 phase1 phase2 d.
                  atan2_double (Q k) (I k) a1 \<and> atan2_double (Q (k + 1)) (I (k + 1)) a2 \<and>
                  nearest32 a1 phase1 \<and> nearest32 a2 phase2 \<and>
                  nearest32 (phase2 - phase1) d \<and>
                  \<bar>d - delta k\<bar> \<le> 1 / 2 ^ 20 \<and>
                  (if d > M_PI_double then
                     (\<exists>y. nearest64 (d - 2 * M_PI_double) y \<and> nearest32 y (out ! k)) \<and>
                     \<bar>out ! k - (delta k - 2 * pi)\<bar> \<le> 1 / 2 ^ 20
                   else if d < - M_PI_double then
                     (\<exists>y. nearest64 (d + 2 * M_PI_double) y \<and> nearest32 y (out ! k)) \<and>
                     \<bar>out ! k - (delta k + 2 * pi)\<bar> \<le> 1 / 2 ^ 20
                   else out ! k = d)))"
    if run: "get_freq_values_binary32 freq_samples (map I [0..<N]) (map Q [0..<N]) N out" for out
  proof -
    from get_freq_loop_binary32_spec[OF run[unfolded get_freq_values_binary32_def]]
    have sp: "length out = length freq_samples"
      "\<And>k. k < N - 1 \<Longrightarrow>
        get_instant_freq_float (map I [0..<N] ! k) (map Q [0..<N] ! k)
          (map I [0..<N] ! (k + 1)) (map Q [0..<N] ! (k + 1)) (out ! k)"
      "\<And>k. N - 1 \<le> k \<Longrightarrow> out ! k = freq_samples ! k"
      by simp_all
    have per: "\<exists>a1 a2 phase1 phase2 d.
                  atan2_double (Q k) (I k) a1 \<and> atan2_double (Q (k + 1)) (I (k + 1)) a2 \<and>
                  nearest32 a1 phase1 \<and> nearest32 a2 phase2 \<and>
                  nearest32 (phase2 - phase1) d \<and>
                  \<bar>d - delta k\<bar> \<le> 1 / 2 ^ 20 \<and>
                  (if d > M_PI_double then
                     (\<exists>y. nearest64 (d - 2 * M_PI_double) y \<and> nearest32 y (out ! k)) \<and>
                     \<bar>out ! k - (delta k - 2 * pi)\<bar> \<le> 1 / 2 ^ 20
                   else if d < - M_PI_double then
                     (\<exists>y. nearest64 (d + 2 * M_PI_double) y \<and> nearest32 y (out ! k)) \<and>
                     \<bar>out ! k - (delta k + 2 * pi)\<bar> \<le> 1 / 2 ^ 20
                   else out ! k = d)" if k: "k < N - 1" for k
    proof -
      from k have kk: "k < N" "k + 1 < N" by arith+
      have "get_instant_freq_float (I k) (Q k) (I (k + 1)) (Q (k + 1)) (out ! k)"
        using sp(2)[OF k] kk by (simp del: upt_Suc)
      from get_instant_freq_float_spec[OF this] show ?thesis
        unfolding delta_def by blast
    qed
    show ?thesis using sp(1,3) per by blast
  qed
  from a b ex all show ?thesis by blast
qed

theorem discriminator_samples_binary32_witness:
  "length [128, 128, 127, 127 :: 8 word] = 2 * 2 \<and> 2 - 1 \<le> length [7, 9 :: real] \<and>
   demodulate_loop [128, 128, 127, 127] (2 * 2) (replicate 2 0) (replicate 2 0) 0 0 =
     Some ([1/2, - (1/2)], [1/2, - (1/2)]) \<and>
   get_freq_values_binary32 [7, 9] [1/2, - (1/2)] [1/2, - (1/2)] 2 [13176794 / 2 ^ 22, 9]"
proof -
  define buffer :: "8 word list" where "buffer = [128, 128, 127, 127]"
  define f :: "real list" where "f = [7, 9]"
  have h1: "length buffer = 2 * 2" by (simp add: buffer_def)
  have h2: "2 - 1 \<le> length f" by (simp add: f_def)
  have u: "[0..<2] = [0, 1]" by (simp add: upt_conv_Cons)
  have c: "convert_value 127 = - (1/2)" "convert_value 128 = 1/2"
    by (simp_all add: convert_value_def)
  have mi: "map (\<lambda>k. convert_value (buffer ! (2 * k))) [0..<2] = [1/2, - (1/2)]"
    and mq: "map (\<lambda>k. convert_value (buffer ! (2 * k + 1))) [0..<2] = [1/2, - (1/2)]"
    unfolding u by (simp_all add: c buffer_def)
  have iq: "convert_value (buffer ! (2 * 0)) = 1/2" "convert_value (buffer ! (2 * 0 + 1)) = 1/2"
    "convert_value (buffer ! (2 * (0 + 1))) = - (1/2)"
    "convert_value (buffer ! (2 * (0 + 1) + 1)) = - (1/2)"
    by (simp_all add: c buffer_def)
  note t = discriminator_samples_binary32 [OF h1 h2, unfolded mi mq]
  from t have split: "demodulate_loop buffer (2 * 2) (replicate 2 0) (replicate 2 0) 0 0 =
     Some ([1/2, - (1/2)], [1/2, - (1/2)])" by blast
  from t obtain out where out: "get_freq_values_binary32 f [1/2, - (1/2)] [1/2, - (1/2)] 2 out"
    by blast
  from t out have len: "length out = length f"
    and rest: "\<forall>k. 2 - 1 \<le> k \<longrightarrow> out ! k = f ! k"
    and cell: "\<forall>k. k < 2 - 1 \<longrightarrow>
               (\<exists>a1 a2 phase1 phase2 d.
                  atan2_double (convert_value (buffer ! (2 * k + 1))) (convert_value (buffer ! (2 * k))) a1 \<and>
                  atan2_double (convert_value (buffer ! (2 * (k + 1) + 1)))
                    (convert_value (buffer ! (2 * (k + 1)))) a2 \<and>
                  nearest32 a1 phase1 \<and> nearest32 a2 phase2 \<and>
                  nearest32 (phase2 - phase1) d \<and>
                  \<bar>d - (atan2 (convert_value (buffer ! (2 * (k + 1) + 1)))
                          (convert_value (buffer ! (2 * (k + 1)))) -
                        atan2 (convert_value (buffer ! (2 * k + 1)))
                          (convert_value (buffer ! (2 * k))))\<bar> \<le> 1 / 2 ^ 20 \<and>
                  (if d > M_PI_double then
                     (\<exists>y. nearest64 (d - 2 * M_PI_double) y \<and> nearest32 y (out ! k)) \<and>
                     \<bar>out ! k - (atan2 (convert_value (buffer ! (2 * (k + 1) + 1)))
                          (convert_value (buffer ! (2 * (k + 1)))) -
                        atan2 (convert_value (buffer ! (2 * k + 1)))
                          (convert_value (buffer ! (2 * k))) - 2 * pi)\<bar> \<le> 1 / 2 ^ 20
                   else if d < - M_PI_double then
                     (\<exists>y. nearest64 (d + 2 * M_PI_double) y \<and> nearest32 y (out ! k)) \<and>
                     \<bar>out ! k - (atan2 (convert_value (buffer ! (2 * (k + 1) + 1)))
                          (convert_value (buffer ! (2 * (k + 1)))) -
                        atan2 (convert_value (buffer ! (2 * k + 1)))
                          (convert_value (buffer ! (2 * k))) + 2 * pi)\<bar> \<le> 1 / 2 ^ 20
                   else out ! k = d))"
    by blast+
  have z: "(0::nat) < 2 - 1" by simp
  note c0 = cell[rule_format, OF z, unfolded iq]
  from c0 obtain a1 a2 phase1 phase2 d where
    r: "atan2_double (1/2) (1/2) a1" "atan2_double (- (1/2)) (- (1/2)) a2"
      "nearest32 a1 phase1" "nearest32 a2 phase2" "nearest32 (phase2 - phase1) d"
    and br: "if d > M_PI_double then
                     (\<exists>y. nearest64 (d - 2 * M_PI_double) y \<and> nearest32 y (out ! 0)) \<and>
                     \<bar>out ! 0 - (atan2 (- (1/2)) (- (1/2)) - atan2 (1/2) (1/2) - 2 * pi)\<bar> \<le> 1 / 2 ^ 20
                   else if d < - M_PI_double then
                     (\<exists>y. nearest64 (d + 2 * M_PI_double) y \<and> nearest32 y (out ! 0)) \<and>
                     \<bar>out ! 0 - (atan2 (- (1/2)) (- (1/2)) - atan2 (1/2) (1/2) + 2 * pi)\<bar> \<le> 1 / 2 ^ 20
                   else out ! 0 = d"
    by blast
  from br have "if d > M_PI_double then
           (\<exists>y. nearest64 (d - 2 * M_PI_double) y \<and> nearest32 y (out ! 0))
         else if d < - M_PI_double then
           (\<exists>y. nearest64 (d + 2 * M_PI_double) y \<and> nearest32 y (out ! 0))
         else out ! 0 = d"
    by (simp split: if_splits)
  with r have "get_instant_freq_float (1/2) (1/2) (- (1/2)) (- (1/2)) (out ! 0)"
    unfolding get_instant_freq_float_def get_instant_freq_binary32_def by blast
  then have o0: "out ! 0 = 13176794 / 2 ^ 22" by (rule opposite_points_sample)
  from rest have o1: "out ! 1 = 9" by (simp add: f_def)
  from len have "length out = 2" by (simp add: f_def)
  with o0 o1 have "out = [13176794 / 2 ^ 22, 9]"
    by (simp add: list_eq_iff_nth_eq less_Suc_eq eval_nat_numeral)
  with out h1 h2 split show ?thesis unfolding buffer_def f_def by simp
qed

section \<open>The filter coefficient in binary32\<close>

lemma exp_taylor_6:
  fixes x :: real
  assumes "\<bar>x\<bar> \<le> 1"
  shows "(\<Sum>m<6. x ^ m / fact m) \<le> exp x"
    and "exp x \<le> (\<Sum>m<6. x ^ m / fact m) + x ^ 6 / 240"
proof -
  from Maclaurin_exp_le[of x 6] obtain t where
    t: "\<bar>t\<bar> \<le> \<bar>x\<bar>" "exp x = (\<Sum>m<6. x ^ m / fact m) + (exp t / fact 6) * x ^ 6"
    by blast
  have x6: "0 \<le> x ^ 6" by simp
  have "t \<le> 1" using t(1) assms by linarith
  then have "exp t \<le> exp 1" by simp
  then have e3: "exp t \<le> 3" using exp_le by linarith
  have "0 \<le> (exp t / fact 6) * x ^ 6" using x6 by simp
  with t(2) show "(\<Sum>m<6. x ^ m / fact m) \<le> exp x" by linarith
  have "exp t / fact 6 \<le> 3 / fact 6" using e3 by (intro divide_right_mono) simp_all
  then have "(exp t / fact 6) * x ^ 6 \<le> (3 / fact 6) * x ^ 6"
    using x6 by (intro mult_right_mono)
  also have "\<dots> = x ^ 6 / 240" by (simp add: fact_numeral)
  finally show "exp x \<le> (\<Sum>m<6. x ^ m / fact m) + x ^ 6 / 240" using t(2) by linarith
qed

lemma sum_6:
  fixes f :: "nat \<Rightarrow> real"
  shows "sum f {..<6} = f 0 + f 1 + f 2 + f 3 + f 4 + f 5"
  by (simp add: eval_nat_numeral)

lemma alpha_near: "\<bar>alpha - 11069107 / 2 ^ 29\<bar> \<le> 1 / 2 ^ 32"
proof -
  define x :: real where "x = - 1 / 48"
  have s: "(\<Sum>m<6. x ^ m / fact m) = 29946055919 / 30576476160"
    unfolding sum_6 x_def by (simp add: fact_numeral power_divide)
  have x6: "x ^ 6 / 240 = 1 / 2935341711360" unfolding x_def by (simp add: power_divide)
  have "\<bar>x\<bar> \<le> 1" by (simp add: x_def)
  from exp_taylor_6[OF this]
  have "29946055919 / 30576476160 \<le> exp x"
    "exp x \<le> 29946055919 / 30576476160 + 1 / 2935341711360"
    unfolding s x6 by simp_all
  moreover have "alpha = 1 - exp x" unfolding alpha_value x_def by simp
  moreover have "(11069107 :: real) / 2 ^ 29 - 1 / 2 ^ 32 \<le>
      1 - (29946055919 / 30576476160 + 1 / 2935341711360)"
    "1 - (29946055919 :: real) / 30576476160 \<le> 11069107 / 2 ^ 29 + 1 / 2 ^ 32"
    by simp_all
  ultimately show ?thesis by linarith
qed

lemma exp_lipschitz_nonpos:
  fixes x y :: real
  assumes "x \<le> 0" "y \<le> 0"
  shows "\<bar>exp x - exp y\<bar> \<le> \<bar>x - y\<bar>"
proof -
  have le: "exp v - exp u \<le> v - u" if "u \<le> v" "v \<le> 0" for u v :: real
  proof -
    have "exp u = exp v * exp (u - v)" by (simp flip: exp_add)
    then have "exp v - exp u = exp v * (1 - exp (u - v))" by (simp add: algebra_simps)
    moreover have "exp v \<le> 1" using that(2) by simp
    moreover have "1 - exp (u - v) \<le> v - u" using exp_ge_add_one_self[of "u - v"] by linarith
    moreover have "0 \<le> 1 - exp (u - v)" using that(1) by simp
    ultimately have "exp v - exp u \<le> 1 * (v - u)"
      by (simp only:) (intro mult_mono, simp_all)
    then show ?thesis by simp
  qed
  show ?thesis
  proof (cases "x \<le> y")
    case True
    from le[OF True assms(2)] True show ?thesis by simp
  next
    case False
    then have "y \<le> x" by simp
    from le[OF this assms(1)] False show ?thesis by simp
  qed
qed

lemma quotient_double:
  assumes tau: "nearest64 TAU tau" and t: "nearest64 (tau * real SAMPLE_RATE) t"
    and q: "nearest64 (1.0 / t) q"
  shows "\<bar>q - 1 / 48\<bar> \<le> 1 / 2 ^ 57"
proof -
  have "\<bar>TAU\<bar> \<le> 2 ^ 53 * 2 powi (- 67)"
    by (simp add: TAU_def power_int_minus field_simps)
  from nearest64_abs_error[OF tau this] have "\<bar>tau - TAU\<bar> \<le> 2 powi (- 67) / 2" by simp
  then have e1: "\<bar>tau - 50 / 1000000\<bar> \<le> 1 / 2 ^ 68"
    by (simp add: TAU_def power_int_minus field_simps)
  have n1: "960000 * ((1::real) / 2 ^ 68) \<le> 1 / 2 ^ 48" by simp
  have p: "tau * real SAMPLE_RATE - 48 = 960000 * (tau - 50 / 1000000)"
    by (simp add: SAMPLE_RATE_def algebra_simps)
  have am: "\<bar>960000 * z\<bar> = 960000 * \<bar>z\<bar>" for z :: real by (simp add: abs_mult)
  have "\<bar>960000 * (tau - 50 / 1000000)\<bar> = 960000 * \<bar>tau - 50 / 1000000\<bar>"
    by (rule am)
  also have "\<dots> \<le> 960000 * (1 / 2 ^ 68)" using e1 by (intro mult_left_mono) simp_all
  finally have "\<bar>tau * real SAMPLE_RATE - 48\<bar> \<le> 1 / 2 ^ 48" using n1 unfolding p by linarith
  then have e2: "\<bar>tau * real SAMPLE_RATE - 48\<bar> \<le> 1 / 2 ^ 48" .
  note e2
  moreover have "(1::real) / 2 ^ 48 \<le> 16" by simp
  ultimately have "\<bar>tau * real SAMPLE_RATE\<bar> \<le> 64" by linarith
  then have "\<bar>tau * real SAMPLE_RATE\<bar> \<le> 2 ^ 53 * 2 powi (- 47)"
    by (simp add: power_int_minus field_simps)
  from nearest64_abs_error[OF t this]
  have "\<bar>t - tau * real SAMPLE_RATE\<bar> \<le> 2 powi (- 47) / 2" by simp
  then have "\<bar>t - tau * real SAMPLE_RATE\<bar> \<le> 1 / 2 ^ 48"
    by (simp add: power_int_minus field_simps)
  moreover have "(1::real) / 2 ^ 48 + 1 / 2 ^ 48 = 1 / 2 ^ 47" by simp
  ultimately have e3: "\<bar>t - 48\<bar> \<le> 1 / 2 ^ 47" using e2 by linarith
  then have tb: "48 - 1 / 2 ^ 47 \<le> t" "t \<le> 48 + 1 / 2 ^ 47" by linarith+
  have tpos: "0 < t" using tb(1) by simp
  have "1 / t \<le> 1 / (48 - 1 / 2 ^ 47)"
    using tb(1) by (intro divide_left_mono) simp_all
  moreover have "1 / (48 + 1 / 2 ^ 47) \<le> 1 / t"
    using tb(2) tpos by (intro divide_left_mono) simp_all
  moreover have "(1::real) / (48 - 1 / 2 ^ 47) \<le> 1 / 48 + 1 / 2 ^ 58"
    "(1::real) / 48 - 1 / 2 ^ 58 \<le> 1 / (48 + 1 / 2 ^ 47)"
    by (simp_all add: field_simps)
  ultimately have e4: "\<bar>1 / t - 1 / 48\<bar> \<le> 1 / 2 ^ 58" by linarith
  moreover have "(1::real) / 48 + 1 / 2 ^ 58 \<le> 1 / 32" "(0::real) \<le> 1 / 48 - 1 / 2 ^ 58" by simp_all
  ultimately have "\<bar>1 / t\<bar> \<le> 1 / 32" by linarith
  then have "\<bar>1.0 / t\<bar> \<le> 1 / 32" by simp
  then have "\<bar>1.0 / t\<bar> \<le> 2 ^ 53 * 2 powi (- 58)"
    by (simp add: power_int_minus field_simps)
  from nearest64_abs_error[OF q this] have "\<bar>q - 1.0 / t\<bar> \<le> 2 powi (- 58) / 2" by simp
  then have "\<bar>q - 1 / t\<bar> \<le> 1 / 2 ^ 59" by (simp add: power_int_minus field_simps)
  moreover have "(1::real) / 2 ^ 59 + 1 / 2 ^ 58 \<le> 1 / 2 ^ 57" by simp
  ultimately show ?thesis using e4 by linarith
qed

lemma difference_double:
  assumes q: "\<bar>q - 1 / 48\<bar> \<le> 1 / 2 ^ 57" and e: "exp_double (- q) e"
    and d: "nearest64 (1.0 - e) d"
  shows "\<bar>d - alpha\<bar> \<le> 1 / 2 ^ 48"
proof -
  have "(1::real) / 2 ^ 57 \<le> 1 / 48" by simp
  with q have qpos: "0 \<le> q" by linarith
  have "\<bar>exp (- q) - exp (- 1 / 48)\<bar> \<le> \<bar>- q - (- 1 / 48)\<bar>"
    using qpos by (intro exp_lipschitz_nonpos) simp_all
  then have e1: "\<bar>exp (- q) - exp (- 1 / 48)\<bar> \<le> 1 / 2 ^ 57" using q by linarith
  have "exp (- q) \<le> 1" using qpos by simp
  then have "exp (- q) / 2 ^ 50 \<le> 1 / 2 ^ 50" by (intro divide_right_mono) simp_all
  with e have e2: "\<bar>e - exp (- q)\<bar> \<le> 1 / 2 ^ 50" unfolding exp_double_def by linarith
  have n: "(1::real) / 2 ^ 50 + 1 / 2 ^ 57 \<le> 1 / 2 ^ 49" by simp
  from e1 e2 n have e3: "\<bar>e - exp (- 1 / 48)\<bar> \<le> 1 / 2 ^ 49" by linarith
  have "0 < exp (- 1 / 48 :: real)" "exp (- 1 / 48 :: real) \<le> 1" by simp_all
  moreover have "(1::real) / 2 ^ 49 \<le> 1" by simp
  ultimately have "\<bar>1 - e\<bar> \<le> 2" using e3 by linarith
  then have "\<bar>1.0 - e\<bar> \<le> 2" by simp
  then have "\<bar>1.0 - e\<bar> \<le> 2 ^ 53 * 2 powi (- 52)" by (simp add: power_int_minus)
  from nearest64_abs_error[OF d this] have "\<bar>d - (1.0 - e)\<bar> \<le> 2 powi (- 52) / 2" by simp
  then have "\<bar>d - (1 - e)\<bar> \<le> 1 / 2 ^ 53" by (simp add: power_int_minus field_simps)
  moreover have "(1::real) / 2 ^ 53 + 1 / 2 ^ 49 \<le> 1 / 2 ^ 48" by simp
  ultimately show ?thesis using e3 unfolding alpha_value by linarith
qed

lemma alpha_binary32_value:
  assumes "alpha_binary32 a"
  shows "a = 11069107 / 2 ^ 29"
proof -
  from assms obtain tau t q e d where
    c: "nearest64 TAU tau" "nearest64 (tau * real SAMPLE_RATE) t" "nearest64 (1.0 / t) q"
      "exp_double (- q) e" "nearest64 (1.0 - e) d" "nearest32 d a"
    unfolding alpha_binary32_def by blast
  from difference_double[OF quotient_double[OF c(1,2,3)] c(4,5)]
  have "\<bar>d - alpha\<bar> \<le> 1 / 2 ^ 48" .
  moreover have "(1::real) / 2 ^ 48 + 1 / 2 ^ 32 < 1 / 2 ^ 30" by simp
  ultimately have "\<bar>d - 11069107 / 2 ^ 29\<bar> < 1 / 2 ^ 30" using alpha_near by linarith
  then have "\<bar>d - of_int 11069107 / 2 ^ 29\<bar> < 1 / 2 ^ (29 + 1)" by simp
  with c(6) have "a = of_int 11069107 / 2 ^ 29"
    by (rule nearest32_unique_fraction) simp_all
  then show ?thesis by simp
qed

lemma exp_double_exists:
  assumes "0 \<le> q" "q \<le> 1 / 32"
  shows "\<exists>e. exp_double (- q) e"
proof -
  from nearest64_exists obtain e where e: "nearest64 (exp (- q)) e" by blast
  have le: "exp (- q) \<le> 1" using assms(1) by simp
  have ge: "31 / 32 \<le> exp (- q)" using exp_ge_add_one_self[of "- q"] assms(2) by linarith
  have "\<bar>exp (- q)\<bar> \<le> 2 ^ 53 * 2 powi (- 53)" using le by (simp add: power_int_minus)
  from nearest64_abs_error[OF e this] have "\<bar>e - exp (- q)\<bar> \<le> 2 powi (- 53) / 2" by simp
  then have "\<bar>e - exp (- q)\<bar> \<le> 1 / 2 ^ 54" by (simp add: power_int_minus field_simps)
  moreover have "(31 / 32) / 2 ^ 50 \<le> exp (- q) / 2 ^ 50"
    using ge by (intro divide_right_mono) simp_all
  moreover have "(1::real) / 2 ^ 54 \<le> (31 / 32) / 2 ^ 50" by simp
  ultimately have "\<bar>e - exp (- q)\<bar> \<le> exp (- q) / 2 ^ 50" by linarith
  moreover have "is_binary64 e" using e unfolding nearest64_def by blast
  ultimately show ?thesis unfolding exp_double_def by blast
qed

lemma alpha_binary32_exists: "alpha_binary32 (11069107 / 2 ^ 29)"
proof -
  from nearest64_exists obtain tau where tau: "nearest64 TAU tau" by blast
  from nearest64_exists obtain t where t: "nearest64 (tau * real SAMPLE_RATE) t" by blast
  from nearest64_exists obtain q where q: "nearest64 (1.0 / t) q" by blast
  note qb = quotient_double[OF tau t q]
  have "(1::real) / 2 ^ 57 \<le> 1 / 48" "(1::real) / 48 + 1 / 2 ^ 57 \<le> 1 / 32" by simp_all
  with qb have "0 \<le> q" "q \<le> 1 / 32" by linarith+
  from exp_double_exists[OF this] obtain e where e: "exp_double (- q) e" by blast
  from nearest64_exists obtain d where d: "nearest64 (1.0 - e) d" by blast
  from nearest32_exists obtain a where a: "nearest32 d a" by blast
  have aa: "alpha_binary32 a" unfolding alpha_binary32_def using tau t q e d a by blast
  from alpha_binary32_value[OF aa] have "a = 11069107 / 2 ^ 29" .
  with aa show ?thesis by (simp only:)
qed

section \<open>Relative rounding error\<close>

lemma binade:
  fixes x :: real
  assumes "0 < x"
  shows "\<exists>e :: int. 2 powi e \<le> x \<and> x < 2 powi (e + 1)"
proof -
  define e where "e = \<lfloor>log 2 x\<rfloor>"
  have "2 powr (of_int e) \<le> x \<and> x < 2 powr (of_int (e + 1))"
    using floor_log_eq_powr_iff[of x 2 e] assms by (simp add: e_def)
  then show ?thesis
    by (auto simp: powr_real_of_int' simp del: of_int_add)
qed

lemma nearest32_rel_error_pos:
  assumes n: "nearest32 x r" and lo: "2 powi (- 126) \<le> x" and hi: "x \<le> 2 ^ 126"
  shows "\<bar>r - x\<bar> \<le> x / 2 ^ 24"
proof -
  have pos: "0 < x"
  proof -
    have "(0::real) < 2 powi (- 126)" by simp
    with lo show ?thesis by linarith
  qed
  from binade[OF pos] obtain e :: int where e: "2 powi e \<le> x" "x < 2 powi (e + 1)" by blast
  have e1: "- 126 \<le> e"
  proof (rule ccontr)
    assume "\<not> - 126 \<le> e"
    then have "e + 1 \<le> - 126" by simp
    then have "(2::real) powi (e + 1) \<le> 2 powi (- 126)"
      by (intro power_int_increasing) simp_all
    with e(2) lo show False by linarith
  qed
  have e2: "e \<le> 126"
  proof (rule ccontr)
    assume "\<not> e \<le> 126"
    then have "127 \<le> e" by simp
    then have "(2::real) powi 127 \<le> 2 powi e"
      by (intro power_int_increasing) simp_all
    moreover have "(2::real) ^ 126 < 2 powi 127" by simp
    ultimately show False using e(1) hi by linarith
  qed
  have "(2::real) powi (e + 1) = 2 ^ 24 * 2 powi (e - 23)"
    by (simp add: power_int_add power_int_diff)
  with e(2) pos have "\<bar>x\<bar> \<le> 2 ^ 24 * 2 powi (e - 23)" by simp
  from nearest32_abs_error[OF n this] e1 e2
  have "\<bar>r - x\<bar> \<le> 2 powi (e - 23) / 2" by simp
  also have "\<dots> = 2 powi e / 2 ^ 24" by (simp add: power_int_diff)
  also have "\<dots> \<le> x / 2 ^ 24" using e(1) by (intro divide_right_mono) simp_all
  finally show ?thesis .
qed

lemma nearest32_rel_error:
  assumes n: "nearest32 x r" and lo: "2 powi (- 126) \<le> \<bar>x\<bar>" and hi: "\<bar>x\<bar> \<le> 2 ^ 126"
  shows "\<bar>r - x\<bar> \<le> \<bar>x\<bar> / 2 ^ 24"
proof (cases "0 \<le> x")
  case True
  with nearest32_rel_error_pos[OF n] lo hi show ?thesis by simp
next
  case False
  then have "\<bar>x\<bar> = - x" by simp
  with nearest32_rel_error_pos[OF nearest32_minus[OF n]] lo hi
  have "\<bar>- r - - x\<bar> \<le> - x / 2 ^ 24" by simp
  then show ?thesis using False by simp
qed

section \<open>Properties of the de-emphasis filter in binary32\<close>

lemma nearest32_rel_error_numeral:
  assumes "nearest32 x r" "1 / 2 ^ 126 \<le> \<bar>x\<bar>" "\<bar>x\<bar> \<le> 2 ^ 126"
  shows "\<bar>r - x\<bar> \<le> \<bar>x\<bar> / 16777216"
  using nearest32_rel_error[OF assms(1)] assms(2,3) by (simp add: power_int_minus field_simps)

lemma one_minus_alpha_binary32:
  assumes "nearest32 (1.0 - 11069107 / 2 ^ 29) b"
  shows "b = 16431306 / 2 ^ 24"
proof -
  have "\<bar>(1.0 - 11069107 / 2 ^ 29) - of_int 16431306 / 2 ^ 24\<bar> < (1::real) / 2 ^ (24 + 1)"
    by simp
  with assms have "b = of_int 16431306 / 2 ^ 24"
    by (rule nearest32_unique_fraction) simp_all
  then show ?thesis by simp
qed

lemma deemphasize_step_binary32_near:
  fixes v p r :: real
  assumes step: "deemphasize_step_binary32 (11069107 / 2 ^ 29) v p r"
    and v1: "1 / 2 ^ 100 \<le> \<bar>v\<bar>" and v2: "\<bar>v\<bar> \<le> 2 ^ 100"
    and p: "\<bar>p - v\<bar> \<le> \<bar>v\<bar> / 2 ^ 17"
  shows "\<bar>r - v\<bar> \<le> \<bar>v\<bar> / 2 ^ 17"
proof -
  define m where "m = \<bar>v\<bar>"
  from step obtain t1 b t2 where
    s: "nearest32 (11069107 / 2 ^ 29 * v) t1" "nearest32 (1.0 - 11069107 / 2 ^ 29) b"
      "nearest32 (b * p) t2" "nearest32 (t1 + t2) r"
    unfolding deemphasize_step_binary32_def by blast
  from one_minus_alpha_binary32[OF s(2)] have b: "b = 16431306 / 2 ^ 24" .
  have m1: "1 / 1267650600228229401496703205376 \<le> m" and m2: "m \<le> 1267650600228229401496703205376"
    using v1 v2 by (simp_all add: m_def)
  have pv: "\<bar>p - v\<bar> \<le> m / 131072" using p by (simp add: m_def)
  have pm: "\<bar>p\<bar> \<le> m + m / 131072" "m - m / 131072 \<le> \<bar>p\<bar>"
    using pv unfolding m_def by linarith+
  have a1: "\<bar>11069107 / 2 ^ 29 * v\<bar> = 11069107 / 536870912 * m"
    by (simp add: abs_mult m_def)
  have "1 / 2 ^ 126 \<le> \<bar>11069107 / 2 ^ 29 * v\<bar>" "\<bar>11069107 / 2 ^ 29 * v\<bar> \<le> 2 ^ 126"
    unfolding a1 using m1 m2 by simp_all
  from nearest32_rel_error_numeral[OF s(1) this]
  have e1: "\<bar>t1 - 11069107 / 536870912 * v\<bar> \<le> 11069107 / 536870912 * m / 16777216"
    unfolding a1 by simp
  have a2: "\<bar>b * p\<bar> = 16431306 / 16777216 * \<bar>p\<bar>"
    by (simp add: abs_mult b)
  have "1 / 2 ^ 126 \<le> \<bar>b * p\<bar>" "\<bar>b * p\<bar> \<le> 2 ^ 126"
    unfolding a2 using m1 m2 pm by simp_all
  from nearest32_rel_error_numeral[OF s(3) this]
  have e2: "\<bar>t2 - 16431306 / 16777216 * p\<bar> \<le> 16431306 / 16777216 * \<bar>p\<bar> / 16777216"
    unfolding a2 by (simp add: b)
  have id: "t1 + t2 - v = (t1 - 11069107 / 536870912 * v) + (t2 - 16431306 / 16777216 * p)
      + 16431306 / 16777216 * (p - v) - 13 / 536870912 * v"
    by (simp add: field_simps)
  have am: "\<bar>c * z\<bar> = c * \<bar>z\<bar>" if "0 \<le> c" for c z :: real
    using that by (simp add: abs_mult)
  have a3: "\<bar>16431306 / 16777216 * (p - v)\<bar> = 16431306 / 16777216 * \<bar>p - v\<bar>"
    "\<bar>13 / 536870912 * v\<bar> = 13 / 536870912 * m"
    unfolding m_def by (rule am, simp)+
  define E1 where "E1 = \<bar>t1 - 11069107 / 536870912 * v\<bar>"
  define E2 where "E2 = \<bar>t2 - 16431306 / 16777216 * p\<bar>"
  define P where "P = \<bar>p\<bar>"
  define Q where "Q = \<bar>p - v\<bar>"
  define S where "S = \<bar>t1 + t2 - v\<bar>"
  have "\<bar>t1 + t2 - v\<bar> \<le> \<bar>t1 - 11069107 / 536870912 * v\<bar> + \<bar>t2 - 16431306 / 16777216 * p\<bar>
      + \<bar>16431306 / 16777216 * (p - v)\<bar> + \<bar>13 / 536870912 * v\<bar>"
    unfolding id by linarith
  then have tri: "S \<le> E1 + E2 + 16431306 / 16777216 * Q + 13 / 536870912 * m"
    unfolding a3 E1_def E2_def Q_def S_def .
  have f: "E1 \<le> 11069107 / 536870912 * m / 16777216"
    "E2 \<le> 16431306 / 16777216 * P / 16777216" "P \<le> m + m / 131072" "Q \<le> m / 131072"
    using e1 e2 pm(1) pv unfolding E1_def E2_def P_def Q_def by simp_all
  have mpos: "0 < m"
  proof -
    have "(0::real) < 1 / 1267650600228229401496703205376" by simp
    with m1 show ?thesis by linarith
  qed
  have "S \<le> m / 2" using tri f mpos by linarith
  then have svm: "\<bar>t1 + t2 - v\<bar> \<le> m / 2" unfolding S_def .
  have sm: "\<bar>t1 + t2\<bar> \<le> 2 * m" "m / 2 \<le> \<bar>t1 + t2\<bar>"
    using svm mpos unfolding m_def by linarith+
  have "1 / 2 ^ 126 \<le> \<bar>t1 + t2\<bar>" "\<bar>t1 + t2\<bar> \<le> 2 ^ 126"
    using sm m1 m2 by simp_all
  from nearest32_rel_error_numeral[OF s(4) this]
  have e3: "\<bar>r - (t1 + t2)\<bar> \<le> \<bar>t1 + t2\<bar> / 16777216" .
  define T where "T = \<bar>t1 + t2\<bar>"
  define R where "R = \<bar>r - (t1 + t2)\<bar>"
  have g: "R \<le> T / 16777216" "T \<le> m + S" using e3 unfolding T_def R_def S_def m_def by linarith+
  from tri f g mpos have "R + S \<le> m / 131072" by linarith
  moreover have "\<bar>r - v\<bar> \<le> R + S" unfolding R_def S_def by linarith
  ultimately have "\<bar>r - v\<bar> \<le> m / 131072" by linarith
  then show ?thesis by (simp add: m_def)
qed

lemma deemphasize_step_binary32_total: "\<exists>r. deemphasize_step_binary32 a x p r"
proof -
  from nearest32_exists obtain t1 where t1: "nearest32 (a * x) t1" by blast
  from nearest32_exists obtain b where b: "nearest32 (1.0 - a) b" by blast
  from nearest32_exists obtain t2 where t2: "nearest32 (b * p) t2" by blast
  from nearest32_exists obtain r where r: "nearest32 (t1 + t2) r" by blast
  from t1 b t2 r show ?thesis unfolding deemphasize_step_binary32_def by blast
qed

lemma deemphasize_step_binary32_zero:
  assumes "deemphasize_step_binary32 a 0 0 r"
  shows "r = 0"
proof -
  from assms obtain t1 b t2 where
    s: "nearest32 (a * 0) t1" "nearest32 (b * 0) t2" "nearest32 (t1 + t2) r"
    unfolding deemphasize_step_binary32_def by blast
  have z: "is_binary32 0" by (rule binary32_consts)
  from s(1,2) z have "t1 = 0" "t2 = 0" by (simp_all add: nearest32_exactD)
  with s(3) z show ?thesis by (simp add: nearest32_exactD)
qed

lemma deemphasize_step_binary32_constant:
  fixes v p r :: real
  assumes step: "deemphasize_step_binary32 (11069107 / 2 ^ 29) v p r"
    and v: "v = 0 \<or> 1 / 2 ^ 100 \<le> \<bar>v\<bar> \<and> \<bar>v\<bar> \<le> 2 ^ 100"
    and p: "\<bar>p - v\<bar> \<le> \<bar>v\<bar> / 2 ^ 17"
  shows "\<bar>r - v\<bar> \<le> \<bar>v\<bar> / 2 ^ 17"
proof (cases "v = 0")
  case True
  with p have "p = 0" by simp
  with step True have "r = 0" by (simp add: deemphasize_step_binary32_zero)
  with True show ?thesis by simp
next
  case False
  with v have "1 / 2 ^ 100 \<le> \<bar>v\<bar>" "\<bar>v\<bar> \<le> 2 ^ 100" by simp_all
  from deemphasize_step_binary32_near[OF step this p] show ?thesis .
qed

lemma deemphasize_loop_binary32_spec:
  assumes "deemphasize_loop_binary32 a f len i out" "0 < i"
  shows "length out = length f \<and>
         (\<forall>k. k < i \<longrightarrow> out ! k = f ! k) \<and>
         (\<forall>k. i \<le> k \<and> k < len \<longrightarrow>
            deemphasize_step_binary32 a (f ! k) (out ! (k - 1)) (out ! k)) \<and>
         (\<forall>k. len \<le> k \<longrightarrow> out ! k = f ! k)"
  using assms
proof (induction rule: deemphasize_loop_binary32.induct)
  case (deemphasize_loop_binary32_exit i len a freq_samples)
  then show ?case by auto
next
  case (deemphasize_loop_binary32_body i len freq_samples x p a r freq_samples' out)
  from deemphasize_loop_binary32_body.hyps(2,3)
  have v: "x = freq_samples ! i" "p = freq_samples ! (i - 1)"
    by (simp_all add: load_def split: if_splits)
  from deemphasize_loop_binary32_body.hyps(5)
  have b: "i < length freq_samples" "freq_samples' = freq_samples[i := r]"
    by (simp_all add: store_def split: if_splits)
  from deemphasize_loop_binary32_body.IH have ih:
    "length out = length freq_samples'"
    "\<And>k. k < i + 1 \<Longrightarrow> out ! k = freq_samples' ! k"
    "\<And>k. i + 1 \<le> k \<Longrightarrow> k < len \<Longrightarrow>
        deemphasize_step_binary32 a (freq_samples' ! k) (out ! (k - 1)) (out ! k)"
    "\<And>k. len \<le> k \<Longrightarrow> out ! k = freq_samples' ! k"
    by simp_all
  have ipos: "0 < i" by (rule deemphasize_loop_binary32_body.prems)
  have oi: "out ! i = r" using ih(2)[of i] b by simp
  have op: "out ! (i - 1) = freq_samples ! (i - 1)" using ih(2)[of "i - 1"] b ipos by simp
  have a: "out ! k = freq_samples ! k" if "k < i" for k
    using ih(2)[of k] that b by simp
  have s: "deemphasize_step_binary32 a (freq_samples ! k) (out ! (k - 1)) (out ! k)"
    if "i \<le> k" "k < len" for k
  proof (cases "k = i")
    case True
    then show ?thesis
      using deemphasize_loop_binary32_body.hyps(4) v oi op by simp
  next
    case False
    with that have k: "i + 1 \<le> k" by simp
    from ih(3)[OF k that(2)] k b show ?thesis by simp
  qed
  have c: "out ! k = freq_samples ! k" if "len \<le> k" for k
    using ih(4)[OF that] that b deemphasize_loop_binary32_body.hyps(1) by simp
  show ?case using ih(1) b(2) a s c by simp
qed

lemma deemphasize_loop_binary32_total:
  assumes "len \<le> length f" "0 < i"
  shows "\<exists>out. deemphasize_loop_binary32 a f len i out"
  using assms
proof (induction "len - i" arbitrary: i f)
  case 0
  then have "\<not> i < len" by simp
  then show ?case using deemphasize_loop_binary32_exit by blast
next
  case (Suc m)
  from Suc.hyps(2) have lt: "i < len" by simp
  have bounds: "i < length f" "i - 1 < length f"
    using lt Suc.prems by arith+
  from deemphasize_step_binary32_total obtain r where
    r: "deemphasize_step_binary32 a (f ! i) (f ! (i - 1)) r" by blast
  have "\<exists>out. deemphasize_loop_binary32 a (f[i := r]) len (i + 1) out"
    using Suc.hyps(2) Suc.prems by (intro Suc.hyps(1)) simp_all
  then obtain out where out: "deemphasize_loop_binary32 a (f[i := r]) len (i + 1) out" by blast
  have l: "load f i = Some (f ! i)" "load f (i - 1) = Some (f ! (i - 1))"
    using bounds by (simp_all add: load_def)
  have s: "store f i r = Some (f[i := r])" using bounds by (simp add: store_def)
  from deemphasize_loop_binary32_body[OF lt l r s out] show ?case by blast
qed

lemma deemphasize_filter_binary32_spec:
  assumes "deemphasize_filter_binary32 f l len out"
  shows "0 < length f \<and> length out = length f \<and>
         deemphasize_step_binary32 (11069107 / 2 ^ 29) (f ! 0) l (out ! 0) \<and>
         (\<forall>k. 1 \<le> k \<and> k < len \<longrightarrow>
            deemphasize_step_binary32 (11069107 / 2 ^ 29) (f ! k) (out ! (k - 1)) (out ! k)) \<and>
         (\<forall>k. 1 \<le> k \<and> len \<le> k \<longrightarrow> out ! k = f ! k)"
proof -
  from assms obtain a x r f' where
    c: "alpha_binary32 a" "load f 0 = Some x" "deemphasize_step_binary32 a x l r"
      "store f 0 r = Some f'" "deemphasize_loop_binary32 a f' len 1 out"
    unfolding deemphasize_filter_binary32_def by blast
  from alpha_binary32_value[OF c(1)] have a: "a = 11069107 / 2 ^ 29" .
  from c(2) have x: "0 < length f" "x = f ! 0" by (simp_all add: load_def split: if_splits)
  from c(4) have f': "f' = f[0 := r]" by (simp add: store_def split: if_splits)
  from deemphasize_loop_binary32_spec[OF c(5)] have sp:
    "length out = length f'"
    "\<And>k. k < 1 \<Longrightarrow> out ! k = f' ! k"
    "\<And>k. 1 \<le> k \<Longrightarrow> k < len \<Longrightarrow> deemphasize_step_binary32 a (f' ! k) (out ! (k - 1)) (out ! k)"
    "\<And>k. len \<le> k \<Longrightarrow> out ! k = f' ! k"
    by simp_all
  have o0: "out ! 0 = r" using sp(2)[of 0] x(1) f' by simp
  have s: "deemphasize_step_binary32 (11069107 / 2 ^ 29) (f ! k) (out ! (k - 1)) (out ! k)"
    if "1 \<le> k" "k < len" for k
    using sp(3)[OF that] that f' a by simp
  have r: "out ! k = f ! k" if "1 \<le> k" "len \<le> k" for k
    using sp(4)[OF that(2)] that f' by simp
  show ?thesis using x(1) sp(1) f' c(3) x(2) a o0 s r by simp
qed

lemma deemphasize_filter_binary32_total:
  assumes "0 < length f" "len \<le> length f"
  shows "\<exists>out. deemphasize_filter_binary32 f l len out"
proof -
  from deemphasize_step_binary32_total obtain r where
    r: "deemphasize_step_binary32 (11069107 / 2 ^ 29) (f ! 0) l r" by blast
  from deemphasize_loop_binary32_total[of len "f[0 := r]" 1] assms(2)
  obtain out where out: "deemphasize_loop_binary32 (11069107 / 2 ^ 29) (f[0 := r]) len 1 out"
    by auto
  have "load f 0 = Some (f ! 0)" "store f 0 r = Some (f[0 := r])"
    using assms(1) by (simp_all add: load_def store_def)
  with alpha_binary32_exists r out show ?thesis
    unfolding deemphasize_filter_binary32_def by blast
qed

text \<open>
  One step at \<^verbatim>\<open>1.1f\<close>, which is \<open>9227469 / 2^23\<close>: the two products are rounded to
  \<open>12176018 / 2^29\<close> and \<open>9037218 / 2^23\<close>, and their sum \<open>9227468.28125 / 2^23\<close> to the
  \<^verbatim>\<open>float\<close> below \<^verbatim>\<open>1.1f\<close>.
\<close>

lemma deemphasize_step_binary32_example:
  assumes "deemphasize_step_binary32 (11069107 / 2 ^ 29) (9227469 / 2 ^ 23) (9227469 / 2 ^ 23) r"
  shows "r = 9227468 / 2 ^ 23"
proof -
  from assms obtain t1 b t2 where
    s: "nearest32 (11069107 / 2 ^ 29 * (9227469 / 2 ^ 23)) t1"
      "nearest32 (1.0 - 11069107 / 2 ^ 29) b"
      "nearest32 (b * (9227469 / 2 ^ 23)) t2" "nearest32 (t1 + t2) r"
    unfolding deemphasize_step_binary32_def by blast
  from one_minus_alpha_binary32[OF s(2)] have b: "b = 16431306 / 2 ^ 24" .
  have "\<bar>11069107 / 2 ^ 29 * (9227469 / 2 ^ 23) - of_int 12176018 / 2 ^ 29\<bar> < (1::real) / 2 ^ (29 + 1)"
    by simp
  with s(1) have "t1 = of_int 12176018 / 2 ^ 29"
    by (rule nearest32_unique_fraction) simp_all
  then have t1: "t1 = 12176018 / 2 ^ 29" by simp
  have "\<bar>16431306 / 2 ^ 24 * (9227469 / 2 ^ 23) - of_int 9037218 / 2 ^ 23\<bar> < (1::real) / 2 ^ (23 + 1)"
    by simp
  with s(3)[unfolded b] have "t2 = of_int 9037218 / 2 ^ 23"
    by (rule nearest32_unique_fraction) simp_all
  then have t2: "t2 = 9037218 / 2 ^ 23" by simp
  have "\<bar>12176018 / 2 ^ 29 + 9037218 / 2 ^ 23 - of_int 9227468 / 2 ^ 23\<bar> < (1::real) / 2 ^ (23 + 1)"
    by simp
  with s(4)[unfolded t1 t2] have "r = of_int 9227468 / 2 ^ 23"
    by (rule nearest32_unique_fraction) simp_all
  then show ?thesis by simp
qed

text \<open>
  Claim C9 says that with a constant input \<open>v\<close> and the carried state \<open>v\<close> every output
  sample equals \<open>v\<close>. That holds for the exact recurrence, since \<open>alpha + (1 - alpha) = 1\<close>
  (\<open>deemphasize_filter_constant\<close>); the program evaluates it in \<^verbatim>\<open>float\<close>, where \<open>alpha\<close> is
  \<open>11069107 / 2^29\<close>, \<^verbatim>\<open>1.0f - alpha\<close> is \<open>16431306 / 2^24\<close> and the two sum to \<open>1 - 13 / 2^29\<close>.
  For one sample \<^verbatim>\<open>1.1f\<close> with the carried state \<^verbatim>\<open>1.1f\<close> the filter returns the \<^verbatim>\<open>float\<close> below
  \<^verbatim>\<open>1.1f\<close>, and cannot return \<^verbatim>\<open>1.1f\<close>.
\<close>

theorem constant_input_is_not_reproduced:
  "is_binary32 (9227469 / 2 ^ 23) \<and>
   deemphasize_filter_binary32 [9227469 / 2 ^ 23] (9227469 / 2 ^ 23) 1 [9227468 / 2 ^ 23] \<and>
   \<not> deemphasize_filter_binary32 [9227469 / 2 ^ 23] (9227469 / 2 ^ 23) 1 [9227469 / 2 ^ 23]"
proof -
  have b: "is_binary32 (9227469 / 2 ^ 23)"
    using is_binary32_dyadic[of 9227469 "- 23"] by (simp add: power_int_minus field_simps)
  have u: "out = [9227468 / 2 ^ 23]"
    if run: "deemphasize_filter_binary32 [9227469 / 2 ^ 23] (9227469 / 2 ^ 23) 1 out" for out
  proof -
    from deemphasize_filter_binary32_spec[OF run]
    have "length out = 1"
      "deemphasize_step_binary32 (11069107 / 2 ^ 29) (9227469 / 2 ^ 23) (9227469 / 2 ^ 23) (out ! 0)"
      by simp_all
    from this(1) deemphasize_step_binary32_example[OF this(2)] show ?thesis
      by (cases out) simp_all
  qed
  from deemphasize_filter_binary32_total[of "[9227469 / 2 ^ 23]" 1 "9227469 / 2 ^ 23"]
  obtain out where out: "deemphasize_filter_binary32 [9227469 / 2 ^ 23] (9227469 / 2 ^ 23) 1 out"
    by auto
  from u[OF out] out
  have r: "deemphasize_filter_binary32 [9227469 / 2 ^ 23] (9227469 / 2 ^ 23) 1 [9227468 / 2 ^ 23]"
    by simp
  have n: "\<not> deemphasize_filter_binary32 [9227469 / 2 ^ 23] (9227469 / 2 ^ 23) 1 [9227469 / 2 ^ 23]"
  proof
    assume "deemphasize_filter_binary32 [9227469 / 2 ^ 23] (9227469 / 2 ^ 23) 1 [9227469 / 2 ^ 23]"
    from u[OF this] show False by simp
  qed
  from b r n show ?thesis by blast
qed

text \<open>
  Claim C9 as the code has it. With a constant input \<open>v\<close> (zero, or of a magnitude within
  \<open>[2^-100, 2^100]\<close>) and a carried state within \<open>\<bar>v\<bar> / 2^17\<close> of \<open>v\<close>, in particular the
  carried state \<open>v\<close> itself, the filter always returns, and every output sample lies within
  \<open>\<bar>v\<bar> / 2^17\<close> of \<open>v\<close>: at most 128 units in the last place of \<^verbatim>\<open>1.0f\<close> times \<open>\<bar>v\<bar>\<close>. The
  other cells of the array keep their content.
\<close>

theorem deemphasize_filter_binary32_near_fixed_point:
  assumes "0 < len" and "len \<le> length freq_samples"
    and "\<forall>i. i < len \<longrightarrow> freq_samples ! i = v"
    and "v = 0 \<or> 1 / 2 ^ 100 \<le> \<bar>v\<bar> \<and> \<bar>v\<bar> \<le> 2 ^ 100"
    and "\<bar>last_sample - v\<bar> \<le> \<bar>v\<bar> / 2 ^ 17"
  shows "(\<exists>out. deemphasize_filter_binary32 freq_samples last_sample len out) \<and>
         (\<forall>out. deemphasize_filter_binary32 freq_samples last_sample len out \<longrightarrow>
            length out = length freq_samples \<and>
            (\<forall>i. i < len \<longrightarrow> \<bar>out ! i - v\<bar> \<le> \<bar>v\<bar> / 2 ^ 17) \<and>
            (\<forall>i. len \<le> i \<longrightarrow> out ! i = freq_samples ! i))"
proof -
  have p: "0 < length freq_samples" using assms(1,2) by linarith
  have ex: "\<exists>out. deemphasize_filter_binary32 freq_samples last_sample len out"
    using p assms(2) by (rule deemphasize_filter_binary32_total)
  have all: "length out = length freq_samples \<and>
            (\<forall>i. i < len \<longrightarrow> \<bar>out ! i - v\<bar> \<le> \<bar>v\<bar> / 2 ^ 17) \<and>
            (\<forall>i. len \<le> i \<longrightarrow> out ! i = freq_samples ! i)"
    if run: "deemphasize_filter_binary32 freq_samples last_sample len out" for out
  proof -
    from deemphasize_filter_binary32_spec[OF run] have sp:
      "length out = length freq_samples"
      "deemphasize_step_binary32 (11069107 / 2 ^ 29) (freq_samples ! 0) last_sample (out ! 0)"
      "\<And>k. 1 \<le> k \<Longrightarrow> k < len \<Longrightarrow>
         deemphasize_step_binary32 (11069107 / 2 ^ 29) (freq_samples ! k) (out ! (k - 1)) (out ! k)"
      "\<And>k. 1 \<le> k \<Longrightarrow> len \<le> k \<Longrightarrow> out ! k = freq_samples ! k"
      by simp_all
    have near: "\<bar>out ! i - v\<bar> \<le> \<bar>v\<bar> / 2 ^ 17" if "i < len" for i
      using that
    proof (induction i)
      case 0
      from sp(2) assms(3) 0 have "deemphasize_step_binary32 (11069107 / 2 ^ 29) v last_sample (out ! 0)"
        by simp
      from deemphasize_step_binary32_constant[OF this assms(4,5)] show ?case .
    next
      case (Suc i)
      then have i: "i < len" by simp
      from sp(3)[of "Suc i"] Suc.prems assms(3)
      have "deemphasize_step_binary32 (11069107 / 2 ^ 29) v (out ! i) (out ! Suc i)" by simp
      from deemphasize_step_binary32_constant[OF this assms(4) Suc.IH[OF i]] show ?case .
    qed
    have rest: "out ! i = freq_samples ! i" if "len \<le> i" for i
      using sp(4)[of i] that assms(1) by simp
    show ?thesis using sp(1) near rest by blast
  qed
  from ex all show ?thesis by blast
qed

theorem deemphasize_filter_binary32_near_fixed_point_witness:
  "(0::nat) < 2 \<and> 2 \<le> length [9227469 / 2 ^ 23, 9227469 / 2 ^ 23, 5 :: real] \<and>
   \<bar>9227469 / 2 ^ 23 - 9227469 / 2 ^ 23\<bar> \<le> \<bar>9227469 / 2 ^ 23 :: real\<bar> / 2 ^ 17 \<and>
   (\<exists>out. deemphasize_filter_binary32 [9227469 / 2 ^ 23, 9227469 / 2 ^ 23, 5] (9227469 / 2 ^ 23) 2 out \<and>
      out ! 0 = 9227468 / 2 ^ 23 \<and>
      \<bar>out ! 1 - 9227469 / 2 ^ 23\<bar> \<le> \<bar>9227469 / 2 ^ 23\<bar> / 2 ^ 17 \<and> out ! 2 = 5)"
proof -
  define v :: real where "v = 9227469 / 2 ^ 23"
  define f where "f = [v, v, 5]"
  have h1: "(0::nat) < 2" by simp
  have h2: "2 \<le> length f" by (simp add: f_def)
  have h3: "\<forall>i. i < 2 \<longrightarrow> f ! i = v" by (simp add: f_def less_Suc_eq eval_nat_numeral)
  have h4: "v = 0 \<or> 1 / 2 ^ 100 \<le> \<bar>v\<bar> \<and> \<bar>v\<bar> \<le> 2 ^ 100" by (simp add: v_def)
  have h5: "\<bar>v - v\<bar> \<le> \<bar>v\<bar> / 2 ^ 17" by simp
  note t = deemphasize_filter_binary32_near_fixed_point [OF h1 h2 h3 h4 h5]
  from t obtain out where out: "deemphasize_filter_binary32 f v 2 out" by blast
  from t out have n: "\<forall>i. i < 2 \<longrightarrow> \<bar>out ! i - v\<bar> \<le> \<bar>v\<bar> / 2 ^ 17"
    and r: "\<forall>i. 2 \<le> i \<longrightarrow> out ! i = f ! i" by blast+
  from n have o1: "\<bar>out ! 1 - v\<bar> \<le> \<bar>v\<bar> / 2 ^ 17" by simp
  from r have o2: "out ! 2 = 5" by (simp add: f_def)
  from deemphasize_filter_binary32_spec[OF out]
  have "deemphasize_step_binary32 (11069107 / 2 ^ 29) v v (out ! 0)" by (simp add: f_def)
  then have o0: "out ! 0 = 9227468 / 2 ^ 23"
    unfolding v_def by (rule deemphasize_step_binary32_example)
  from h1 h2 h5 out o0 o1 o2 show ?thesis unfolding v_def f_def by blast
qed

end
